theory Spec2Isabelle
  imports Main "HOL-Library.Product_Lexorder"
begin

section \<open>Data model of blurry_mvp.py\<close>

text \<open>
  All timestamps of the program are timezone-aware \<open>datetime\<close> values; they are compared
  and subtracted as instants. An instant is modelled as the integer number of microseconds
  since the epoch (the resolution of \<open>datetime\<close>), a \<open>timedelta\<close> as an integer number of
  microseconds. A \<open>datetime\<close> and a dataclass instance are always truthy in Python, so
  \<open>if x\<close> on an \<open>Optional[datetime]\<close> is the test \<open>x \<noteq> None\<close>.
\<close>

type_synonym datetime = int
type_synonym timedelta = int

definition timedelta_seconds :: "int \<Rightarrow> timedelta" where
  "timedelta_seconds n = n * 1000000"

text \<open>
  A naive \<open>datetime.time\<close> is compared as the tuple (hour, minute, second, microsecond);
  the lexicographic order on tuples is the one of \<open>Product_Lexorder\<close>.
\<close>

type_synonym dtime = "nat \<times> nat \<times> nat \<times> nat"

record AlertCandidate =
  camera_id :: string
  line_number :: "int option"
  blur_since :: datetime
  ready_at :: datetime
  site_id :: string

text \<open>
  The field \<open>site_id\<close> of \<open>AlertAction\<close> is called \<open>action_site_id\<close>, since a record field
  is a global constant. \<open>kind\<close> is the string \<open>''single''\<close> or \<open>''aggregate''\<close>, as in
  the source.
\<close>

record AlertAction =
  kind :: string
  candidates :: "AlertCandidate list"
  action_site_id :: string
  washdown_hint :: bool

record CameraAlertState =
  is_blurry :: bool
  blur_start :: "datetime option"
  last_alert_until :: "datetime option"
  alert_open :: bool
  pending_candidate :: bool

section \<open>Insertion-ordered dictionaries\<close>

text \<open>
  A Python \<open>dict\<close> that the program iterates over is an association list in insertion
  order: assigning to a present key keeps its position, assigning to a new key appends,
  \<open>pop(k, None)\<close> removes the key, and \<open>get\<close> is \<open>map_of\<close>. \<open>od_update\<close> is the
  mutation of the value object stored under a key (the dictionary itself is not
  assigned to), so it changes nothing when the key is absent.
\<close>

fun od_set :: "'k \<Rightarrow> 'v \<Rightarrow> ('k \<times> 'v) list \<Rightarrow> ('k \<times> 'v) list" where
  "od_set k v [] = [(k, v)]"
| "od_set k v (kv # d) = (if fst kv = k then (k, v) # d else kv # od_set k v d)"

definition od_pop :: "'k \<Rightarrow> ('k \<times> 'v) list \<Rightarrow> ('k \<times> 'v) list" where
  "od_pop k d = filter (\<lambda>kv. fst kv \<noteq> k) d"

definition od_update :: "'k \<Rightarrow> 'v \<Rightarrow> ('k \<times> 'v) list \<Rightarrow> ('k \<times> 'v) list" where
  "od_update k v d = map (\<lambda>kv. if fst kv = k then (k, v) else kv) d"

section \<open>SiteAlertAggregator\<close>

text \<open>
  The engine's field \<open>suppress\<close> is \<open>engine_suppress\<close> below; the aggregator keeps the
  source's name. \<open>site_cooldown\<close> is only read with \<open>get\<close> and assigned, so it is a map.
\<close>

record SiteAlertAggregator =
  window :: timedelta
  min_count :: int
  suppress :: timedelta
  washdown_schedule :: "(dtime \<times> dtime) list"
  pending_by_camera :: "(string \<times> AlertCandidate) list"
  pending_by_site :: "(string \<times> (string \<times> AlertCandidate) list) list"
  site_cooldown :: "string \<rightharpoonup> datetime"

definition SiteAlertAggregator_init ::
  "int \<Rightarrow> int \<Rightarrow> int \<Rightarrow> (dtime \<times> dtime) list option \<Rightarrow> SiteAlertAggregator" where
  "SiteAlertAggregator_init window_sec min_cnt suppress_sec schedule =
     \<lparr> window = timedelta_seconds (max 1 window_sec),
       min_count = max 1 min_cnt,
       suppress = timedelta_seconds (max 1 suppress_sec),
       washdown_schedule = (case schedule of None \<Rightarrow> [] | Some w \<Rightarrow> w),
       pending_by_camera = [],
       pending_by_site = [],
       site_cooldown = Map.empty \<rparr>"

definition enqueue :: "AlertCandidate \<Rightarrow> SiteAlertAggregator \<Rightarrow> SiteAlertAggregator" where
  "enqueue candidate A =
     (let site_pool = (case map_of (pending_by_site A) (site_id candidate) of
                         None \<Rightarrow> [] | Some p \<Rightarrow> p)
      in A\<lparr> pending_by_camera := od_set (camera_id candidate) candidate (pending_by_camera A),
            pending_by_site :=
              od_set (site_id candidate) (od_set (camera_id candidate) candidate site_pool)
                (pending_by_site A) \<rparr>)"

text \<open>
  Lines 188-192 (in \<open>cancel\<close>) and 223-227 (in the single loop of \<open>process\<close>) are the same
  statements: look the site's pool up, pop the camera from it, and pop the site when the
  pool has become empty. They are one definition here.
\<close>

definition site_pool_pop ::
  "string \<Rightarrow> string \<Rightarrow> (string \<times> (string \<times> AlertCandidate) list) list
     \<Rightarrow> (string \<times> (string \<times> AlertCandidate) list) list" where
  "site_pool_pop site cam sites =
     (case map_of sites site of
        None \<Rightarrow> sites
      | Some site_pool \<Rightarrow>
          (let site_pool' = od_pop cam site_pool
           in if site_pool' = [] then od_pop site sites else od_update site site_pool' sites))"

definition cancel :: "string \<Rightarrow> SiteAlertAggregator \<Rightarrow> SiteAlertAggregator" where
  "cancel cam A =
     (case map_of (pending_by_camera A) cam of
        None \<Rightarrow> A
      | Some candidate \<Rightarrow>
          A\<lparr> pending_by_camera := od_pop cam (pending_by_camera A),
             pending_by_site := site_pool_pop (site_id candidate) cam (pending_by_site A) \<rparr>)"

subsection \<open>The washdown hint\<close>

text \<open>
  \<open>cand.ready_at.astimezone().time()\<close> is the local time of day of an instant; the local
  zone belongs to the machine, so the conversion is the parameter \<open>tz\<close>. The two loops of
  \<open>_within_washdown\<close> return at the first match.
\<close>

fun schedule_matches :: "dtime \<Rightarrow> (dtime \<times> dtime) list \<Rightarrow> bool" where
  "schedule_matches local_time [] = False"
| "schedule_matches local_time (se # rest) =
     (if fst se \<le> snd se
      then (if fst se \<le> local_time \<and> local_time \<le> snd se then True
            else schedule_matches local_time rest)
      else (if local_time \<ge> fst se \<or> local_time \<le> snd se then True
            else schedule_matches local_time rest))"

fun within_washdown_loop ::
  "(datetime \<Rightarrow> dtime) \<Rightarrow> (dtime \<times> dtime) list \<Rightarrow> AlertCandidate list \<Rightarrow> bool" where
  "within_washdown_loop tz schedule [] = False"
| "within_washdown_loop tz schedule (cand # rest) =
     (if schedule_matches (tz (ready_at cand)) schedule then True
      else within_washdown_loop tz schedule rest)"

definition within_washdown ::
  "(datetime \<Rightarrow> dtime) \<Rightarrow> SiteAlertAggregator \<Rightarrow> AlertCandidate list \<Rightarrow> bool" where
  "within_washdown tz A cands =
     (if washdown_schedule A = [] then False
      else within_washdown_loop tz (washdown_schedule A) cands)"

subsection \<open>process\<close>

text \<open>
  The first loop runs over a snapshot \<open>list(self._pending_by_site.items())\<close>. A pair of
  the snapshot holds the site's pool object itself; while one site is handled only that
  site's pool, the camera pool and the cooldowns are written, so the pool of a snapshot
  pair is the pool the dictionary holds for the site when its turn comes.
\<close>

definition pop_all :: "AlertCandidate list \<Rightarrow> (string \<times> 'v) list \<Rightarrow> (string \<times> 'v) list" where
  "pop_all cands d = foldl (\<lambda>d cand. od_pop (camera_id cand) d) d cands"

definition site_step ::
  "(datetime \<Rightarrow> dtime) \<Rightarrow> datetime \<Rightarrow> string \<Rightarrow> (string \<times> AlertCandidate) list
     \<Rightarrow> AlertAction list \<times> SiteAlertAggregator \<Rightarrow> AlertAction list \<times> SiteAlertAggregator" where
  "site_step tz now site site_pool acc =
     (let dispatches = fst acc; A = snd acc;
          active = filter (\<lambda>cand. now - ready_at cand \<le> window A) (map snd site_pool);
          fire = (int (length active) \<ge> min_count A \<and>
                  (case site_cooldown A site of None \<Rightarrow> True | Some cooldown \<Rightarrow> now \<ge> cooldown));
          dispatches' =
            (if fire
             then dispatches @ [\<lparr> kind = ''aggregate'', candidates = active,
                                  action_site_id = site,
                                  washdown_hint = within_washdown tz A active \<rparr>]
             else dispatches);
          site_pool' = (if fire then pop_all active site_pool else site_pool);
          A1 = (if fire
                then A\<lparr> pending_by_camera := pop_all active (pending_by_camera A),
                        pending_by_site := od_update site site_pool' (pending_by_site A),
                        site_cooldown := (site_cooldown A)(site \<mapsto> now + suppress A) \<rparr>
                else A)
      in (dispatches',
          if site_pool' = []
          then A1\<lparr> pending_by_site := od_pop site (pending_by_site A1) \<rparr>
          else A1))"

fun process_sites ::
  "(datetime \<Rightarrow> dtime) \<Rightarrow> datetime \<Rightarrow> (string \<times> (string \<times> AlertCandidate) list) list
     \<Rightarrow> AlertAction list \<times> SiteAlertAggregator \<Rightarrow> AlertAction list \<times> SiteAlertAggregator" where
  "process_sites tz now [] acc = acc"
| "process_sites tz now (sp # rest) acc =
     process_sites tz now rest (site_step tz now (fst sp) (snd sp) acc)"

definition single_step ::
  "datetime \<Rightarrow> string \<Rightarrow> AlertCandidate
     \<Rightarrow> AlertAction list \<times> SiteAlertAggregator \<Rightarrow> AlertAction list \<times> SiteAlertAggregator" where
  "single_step now cam candidate acc =
     (let dispatches = fst acc; A = snd acc
      in if now - ready_at candidate \<ge> window A
         then (dispatches @ [\<lparr> kind = ''single'', candidates = [candidate],
                                action_site_id = site_id candidate, washdown_hint = False \<rparr>],
               A\<lparr> pending_by_camera := od_pop cam (pending_by_camera A),
                  pending_by_site := site_pool_pop (site_id candidate) cam (pending_by_site A) \<rparr>)
         else acc)"

fun process_singles ::
  "datetime \<Rightarrow> (string \<times> AlertCandidate) list
     \<Rightarrow> AlertAction list \<times> SiteAlertAggregator \<Rightarrow> AlertAction list \<times> SiteAlertAggregator" where
  "process_singles now [] acc = acc"
| "process_singles now (kc # rest) acc =
     process_singles now rest (single_step now (fst kc) (snd kc) acc)"

definition process ::
  "(datetime \<Rightarrow> dtime) \<Rightarrow> datetime \<Rightarrow> SiteAlertAggregator
     \<Rightarrow> AlertAction list \<times> SiteAlertAggregator" where
  "process tz now A =
     (let acc1 = process_sites tz now (pending_by_site A) ([], A)
      in process_singles now (pending_by_camera (snd acc1)) acc1)"

section \<open>Simulator.set_blurry (simulator.py)\<close>

text \<open>The simulator's state is a dictionary from camera ids to the blur flag;
  \<open>set_blurry\<close> writes only a camera the simulator knows.\<close>

definition set_blurry :: "string \<Rightarrow> bool \<Rightarrow> (string \<rightharpoonup> bool) \<Rightarrow> (string \<rightharpoonup> bool)" where
  "set_blurry cam flag sim = (if sim cam \<noteq> None then sim(cam \<mapsto> flag) else sim)"

section \<open>AlertEngine\<close>

text \<open>
  The engine's dictionaries are never iterated over, so they are maps. The episode store
  is the list of the rows appended so far. The notifier is outside the program: its
  answers are an argument of \<open>flush\<close>. \<open>_resolve\<close> and the other \<open>print\<close> calls write log
  lines only and are left out.
\<close>

datatype error = IndexError | ValueError

record AlertEngine =
  line_lookup :: "string \<rightharpoonup> int"
  site_lookup :: "string \<rightharpoonup> string"
  simulator :: "(string \<rightharpoonup> bool) option"
  episode_store :: "(string \<times> datetime \<times> datetime) list"
  threshold :: timedelta
  engine_suppress :: timedelta
  state :: "string \<rightharpoonup> CameraAlertState"
  aggregator :: SiteAlertAggregator

definition DEFAULT_SITE_ID :: string where
  "DEFAULT_SITE_ID = ''Default''"

definition CameraAlertState_init :: CameraAlertState where
  "CameraAlertState_init =
     \<lparr> is_blurry = False, blur_start = None, last_alert_until = None, alert_open = False,
       pending_candidate = False \<rparr>"

definition AlertEngine_init ::
  "(string \<rightharpoonup> int) \<Rightarrow> (string \<rightharpoonup> string) \<Rightarrow> (string \<rightharpoonup> bool) option
     \<Rightarrow> (string \<times> datetime \<times> datetime) list \<Rightarrow> int \<Rightarrow> int \<Rightarrow> int \<Rightarrow> int \<Rightarrow> int
     \<Rightarrow> (dtime \<times> dtime) list option \<Rightarrow> AlertEngine" where
  "AlertEngine_init lines sites sim episodes threshold_sec suppress_sec aggregate_window_sec
       aggregate_min aggregate_suppress_sec schedule =
     \<lparr> line_lookup = lines, site_lookup = sites, simulator = sim, episode_store = episodes,
       threshold = timedelta_seconds (max 0 threshold_sec),
       engine_suppress = timedelta_seconds (max 1 suppress_sec),
       state = Map.empty,
       aggregator = SiteAlertAggregator_init aggregate_window_sec aggregate_min
                      aggregate_suppress_sec schedule \<rparr>"

text \<open>\<open>AlertEngine.process\<close>, the observation of one camera (\<open>observe\<close> in the
  specification).\<close>

definition AlertEngine_process :: "datetime \<Rightarrow> string \<Rightarrow> bool \<Rightarrow> AlertEngine \<Rightarrow> AlertEngine" where
  "AlertEngine_process now cam blurry E =
     (let st = (case state E cam of None \<Rightarrow> CameraAlertState_init | Some s \<Rightarrow> s)
      in if blurry
         then (let st1 = (if \<not> is_blurry st
                          then st\<lparr> is_blurry := True, blur_start := Some now \<rparr> else st);
                   allow_realert =
                     (\<not> (alert_open st1 \<and>
                          (case last_alert_until st1 of None \<Rightarrow> False | Some u \<Rightarrow> now < u)))
               in case blur_start st1 of
                    None \<Rightarrow> E\<lparr> state := (state E)(cam \<mapsto> st1) \<rparr>
                  | Some since \<Rightarrow>
                      if allow_realert \<and> \<not> pending_candidate st1 \<and> now - since \<ge> threshold E
                      then E\<lparr> aggregator :=
                                enqueue \<lparr> camera_id = cam, line_number = line_lookup E cam,
                                          blur_since = since, ready_at = now,
                                          site_id = (case site_lookup E cam of
                                                       None \<Rightarrow> DEFAULT_SITE_ID | Some s \<Rightarrow> s) \<rparr>
                                  (aggregator E),
                              state := (state E)(cam \<mapsto> st1\<lparr> pending_candidate := True \<rparr>) \<rparr>
                      else E\<lparr> state := (state E)(cam \<mapsto> st1) \<rparr>)
         else (let A1 = (if pending_candidate st then cancel cam (aggregator E) else aggregator E);
                   st1 = (if pending_candidate st then st\<lparr> pending_candidate := False \<rparr> else st);
                   st2 = (if is_blurry st1
                          then st1\<lparr> is_blurry := False, blur_start := None, alert_open := False,
                                    last_alert_until := None \<rparr>
                          else st1)
               in E\<lparr> aggregator := A1, state := (state E)(cam \<mapsto> st2) \<rparr>))"

text \<open>\<open>_after_alert\<close>: one camera of the loop, then the loop.\<close>

definition after_alert_camera :: "datetime \<Rightarrow> string \<Rightarrow> AlertEngine \<Rightarrow> string \<Rightarrow> AlertEngine" where
  "after_alert_camera now decision E cam =
     (case state E cam of
        None \<Rightarrow> E
      | Some st \<Rightarrow>
          if decision = ''clean''
          then E\<lparr> simulator := (case simulator E of None \<Rightarrow> None
                                  | Some sim \<Rightarrow> Some (set_blurry cam False sim)),
                  episode_store := (case blur_start st of
                                      None \<Rightarrow> episode_store E
                                    | Some since \<Rightarrow> episode_store E @ [(cam, since, now)]),
                  state := (state E)(cam \<mapsto> st\<lparr> pending_candidate := False, is_blurry := False,
                                                 blur_start := None, alert_open := False,
                                                 last_alert_until := None \<rparr>) \<rparr>
          else E\<lparr> state := (state E)(cam \<mapsto> st\<lparr> pending_candidate := False, alert_open := True,
                                                 last_alert_until := Some (now + engine_suppress E) \<rparr>) \<rparr>)"

definition after_alert :: "datetime \<Rightarrow> string list \<Rightarrow> string \<Rightarrow> AlertEngine \<Rightarrow> AlertEngine" where
  "after_alert now camera_ids decision E = foldl (after_alert_camera now decision) E camera_ids"

text \<open>
  \<open>_handle_single\<close> reads \<open>action.candidates[0]\<close>, which raises \<open>IndexError\<close> on an empty
  list, and returns before it asks the notifier when the camera has no state. The
  argument \<open>decision\<close> is the notifier's answer for the action.
\<close>

definition handle_single :: "AlertAction \<Rightarrow> datetime \<Rightarrow> string \<Rightarrow> AlertEngine \<Rightarrow> error + AlertEngine" where
  "handle_single action now decision E =
     (case candidates action of
        [] \<Rightarrow> Inl IndexError
      | candidate # _ \<Rightarrow>
          (case state E (camera_id candidate) of
             None \<Rightarrow> Inr E
           | Some st \<Rightarrow> Inr (after_alert now [camera_id candidate] decision E)))"

definition handle_aggregate :: "AlertAction \<Rightarrow> datetime \<Rightarrow> string \<Rightarrow> AlertEngine \<Rightarrow> error + AlertEngine" where
  "handle_aggregate action now decision E =
     Inr (after_alert now (map camera_id (candidates action)) decision E)"

text \<open>\<open>flush\<close>: \<open>notifier i\<close> is the answer to the \<open>i\<close>-th action of the flush.\<close>

fun dispatch_actions ::
  "datetime \<Rightarrow> (nat \<Rightarrow> string) \<Rightarrow> nat \<Rightarrow> AlertAction list \<Rightarrow> AlertEngine \<Rightarrow> error + AlertEngine" where
  "dispatch_actions now notifier i [] E = Inr E"
| "dispatch_actions now notifier i (action # rest) E =
     (case (if kind action = ''aggregate'' then handle_aggregate action now (notifier i) E
            else handle_single action now (notifier i) E) of
        Inl e \<Rightarrow> Inl e
      | Inr E' \<Rightarrow> dispatch_actions now notifier (Suc i) rest E')"

definition flush ::
  "(datetime \<Rightarrow> dtime) \<Rightarrow> datetime \<Rightarrow> (nat \<Rightarrow> string) \<Rightarrow> AlertEngine \<Rightarrow> error + AlertEngine" where
  "flush tz now notifier E =
     (let r = process tz now (aggregator E)
      in dispatch_actions now notifier 0 (fst r) (E\<lparr> aggregator := snd r \<rparr>))"

text \<open>Sequences of calls of the engine's three methods.\<close>

datatype engine_op =
  Observe datetime string bool
| FlushAt datetime "nat \<Rightarrow> string"
| Respond datetime "string list" string

fun engine_step :: "(datetime \<Rightarrow> dtime) \<Rightarrow> AlertEngine \<Rightarrow> engine_op \<Rightarrow> error + AlertEngine" where
  "engine_step tz E (Observe now cam blurry) = Inr (AlertEngine_process now cam blurry E)"
| "engine_step tz E (FlushAt now notifier) = flush tz now notifier E"
| "engine_step tz E (Respond now camera_ids decision) = Inr (after_alert now camera_ids decision E)"

fun engine_run :: "(datetime \<Rightarrow> dtime) \<Rightarrow> engine_op list \<Rightarrow> AlertEngine \<Rightarrow> error + AlertEngine" where
  "engine_run tz [] E = Inr E"
| "engine_run tz (op # ops) E =
     (case engine_step tz E op of Inl e \<Rightarrow> Inl e | Inr E' \<Rightarrow> engine_run tz ops E')"

section \<open>parse_washdown_schedule\<close>

text \<open>
  A character of the string is a character of Isabelle's \<open>string\<close> (a code point below
  256). \<open>str.strip()\<close> removes the characters for which \<open>str.isspace\<close> holds, which below
  256 are the code points 9 to 13, 28 to 32, 133 and 160. \<open>str.split(sep)\<close> with a
  one-character separator cuts at every occurrence.
\<close>

definition isspace :: "char \<Rightarrow> bool" where
  "isspace c \<longleftrightarrow> (let n = (of_char c :: nat)
                  in (9 \<le> n \<and> n \<le> 13) \<or> (28 \<le> n \<and> n \<le> 32) \<or> n = 133 \<or> n = 160)"

definition strip :: "string \<Rightarrow> string" where
  "strip s = rev (dropWhile isspace (rev (dropWhile isspace s)))"

fun split :: "char \<Rightarrow> string \<Rightarrow> string list" where
  "split sep [] = [[]]"
| "split sep (c # cs) =
     (if c = sep then [] # split sep cs
      else (case split sep cs of [] \<Rightarrow> [[c]] | x # xs \<Rightarrow> (c # x) # xs))"

text \<open>
  \<open>datetime.strptime(s, "%H:%M")\<close> matches the regular expression
  \<open>(2[0-3]|[0-1]\d|\d):([0-5]\d|\d)\<close> at the start of \<open>s\<close>, the alternatives tried in
  this order, and raises \<open>ValueError\<close> when nothing matches or when the match does not end
  where \<open>s\<close> ends. Below code point 256, \<open>\d\<close> is an ASCII digit. A match function returns
  the value and the rest of the string.
\<close>

definition isdigit :: "char \<Rightarrow> bool" where
  "isdigit c \<longleftrightarrow> 48 \<le> (of_char c :: nat) \<and> (of_char c :: nat) \<le> 57"

definition digit :: "char \<Rightarrow> nat" where
  "digit c = of_char c - 48"

fun match_minute :: "string \<Rightarrow> (nat \<times> string) option" where
  "match_minute (a # b # rest) =
     (if isdigit a \<and> digit a \<le> 5 \<and> isdigit b then Some (10 * digit a + digit b, rest)
      else if isdigit a then Some (digit a, b # rest)
      else None)"
| "match_minute [a] = (if isdigit a then Some (digit a, []) else None)"
| "match_minute [] = None"

definition match_colon_minute :: "nat \<Rightarrow> string \<Rightarrow> (nat \<times> nat \<times> string) option" where
  "match_colon_minute h s =
     (case s of
        [] \<Rightarrow> None
      | c # rest \<Rightarrow>
          if c = CHR '':'' then (case match_minute rest of
                                   None \<Rightarrow> None | Some (m, rest') \<Rightarrow> Some (h, m, rest'))
          else None)"

definition hour_alternatives :: "string \<Rightarrow> (nat \<times> string) list" where
  "hour_alternatives s =
     (case s of
        a # b # rest \<Rightarrow>
          (if a = CHR ''2'' \<and> isdigit b \<and> digit b \<le> 3 then [(20 + digit b, rest)] else []) @
          (if isdigit a \<and> digit a \<le> 1 \<and> isdigit b then [(10 * digit a + digit b, rest)] else []) @
          (if isdigit a then [(digit a, b # rest)] else [])
      | [a] \<Rightarrow> (if isdigit a then [(digit a, [])] else [])
      | [] \<Rightarrow> [])"

fun first_match :: "(nat \<times> string) list \<Rightarrow> (nat \<times> nat \<times> string) option" where
  "first_match [] = None"
| "first_match (hr # alts) =
     (case match_colon_minute (fst hr) (snd hr) of
        None \<Rightarrow> first_match alts
      | Some r \<Rightarrow> Some r)"

definition strptime_HM :: "string \<Rightarrow> error + dtime" where
  "strptime_HM s =
     (case first_match (hour_alternatives s) of
        None \<Rightarrow> Inl ValueError
      | Some (h, m, rest) \<Rightarrow> if rest = [] then Inr (h, m, 0, 0) else Inl ValueError)"

text \<open>The body of the \<open>try\<close>: unpacking the split into two names raises \<open>ValueError\<close>
  unless it has exactly two parts.\<close>

definition parse_chunk :: "string \<Rightarrow> error + (dtime \<times> dtime)" where
  "parse_chunk chunk =
     (case split CHR ''-'' chunk of
        [start_str, end_str] \<Rightarrow>
          (case strptime_HM (strip start_str) of
             Inl e \<Rightarrow> Inl e
           | Inr start \<Rightarrow>
               (case strptime_HM (strip end_str) of
                  Inl e \<Rightarrow> Inl e
                | Inr finish \<Rightarrow> Inr (start, finish)))
      | _ \<Rightarrow> Inl ValueError)"

definition warning :: "string \<Rightarrow> string" where
  "warning chunk =
     ''[WARN] Could not parse washdown window '' @ [CHR 39] @ chunk @ [CHR 39] @
     ''. Expected HH:MM-HH:MM.''"

text \<open>
  The loop over the chunks; the result is the list of windows and the lines printed.
  \<open>except ValueError\<close> catches that exception only, any other one leaves the function.
\<close>

fun parse_chunks ::
  "string list \<Rightarrow> (dtime \<times> dtime) list \<Rightarrow> string list
     \<Rightarrow> error + ((dtime \<times> dtime) list \<times> string list)" where
  "parse_chunks [] windows printed = Inr (windows, printed)"
| "parse_chunks (chunk # rest) windows printed =
     (let chunk' = strip chunk
      in if chunk' = [] then parse_chunks rest windows printed
         else (case parse_chunk chunk' of
                 Inr w \<Rightarrow> parse_chunks rest (windows @ [w]) printed
               | Inl ValueError \<Rightarrow> parse_chunks rest windows (printed @ [warning chunk'])
               | Inl e \<Rightarrow> Inl e))"

definition parse_washdown_schedule ::
  "string option \<Rightarrow> error + ((dtime \<times> dtime) list \<times> string list)" where
  "parse_washdown_schedule spec =
     (case spec of
        None \<Rightarrow> Inr ([], [])
      | Some s \<Rightarrow> if s = [] then Inr ([], []) else parse_chunks (split CHR '','' s) [] [])"

section \<open>Notions used to state and prove the properties\<close>

text \<open>
  The pieces of one iteration of the first loop of \<open>process\<close>, named: the candidates of
  a pool that are still inside the window, the test that lets a site dispatch an
  aggregate, and the action it then appends.
\<close>

definition active_of ::
  "datetime \<Rightarrow> SiteAlertAggregator \<Rightarrow> (string \<times> AlertCandidate) list \<Rightarrow> AlertCandidate list" where
  "active_of now A p = filter (\<lambda>cand. now - ready_at cand \<le> window A) (map snd p)"

definition fires ::
  "datetime \<Rightarrow> SiteAlertAggregator \<Rightarrow> string \<Rightarrow> (string \<times> AlertCandidate) list \<Rightarrow> bool" where
  "fires now A s p \<longleftrightarrow>
     int (length (active_of now A p)) \<ge> min_count A \<and>
     (case site_cooldown A s of None \<Rightarrow> True | Some cooldown \<Rightarrow> now \<ge> cooldown)"

definition agg_action ::
  "(datetime \<Rightarrow> dtime) \<Rightarrow> datetime \<Rightarrow> SiteAlertAggregator \<Rightarrow> string
     \<Rightarrow> (string \<times> AlertCandidate) list \<Rightarrow> AlertAction" where
  "agg_action tz now A s p =
     \<lparr> kind = ''aggregate'', candidates = active_of now A p, action_site_id = s,
       washdown_hint = within_washdown tz A (active_of now A p) \<rparr>"

definition single_action :: "AlertCandidate \<Rightarrow> AlertAction" where
  "single_action c = \<lparr> kind = ''single'', candidates = [c], action_site_id = site_id c,
                       washdown_hint = False \<rparr>"

text \<open>A camera is swept when the first loop pops it: some dispatching site holds an active
  candidate with its camera id.\<close>

definition swept ::
  "datetime \<Rightarrow> SiteAlertAggregator \<Rightarrow> (string \<times> (string \<times> AlertCandidate) list) list
     \<Rightarrow> string \<Rightarrow> bool" where
  "swept now A snap k \<longleftrightarrow>
     (\<exists>sp \<in> set snap. fires now A (fst sp) (snd sp) \<and>
                      k \<in> camera_id ` set (active_of now A (snd sp)))"

definition aged :: "datetime \<Rightarrow> SiteAlertAggregator \<Rightarrow> AlertCandidate \<Rightarrow> bool" where
  "aged now A c \<longleftrightarrow> now - ready_at c \<ge> window A"

definition hint_ok ::
  "(datetime \<Rightarrow> dtime) \<Rightarrow> (dtime \<times> dtime) list \<Rightarrow> AlertAction \<Rightarrow> bool" where
  "hint_ok tz sched a \<longleftrightarrow>
     (if kind a = ''aggregate''
      then washdown_hint a = (\<exists>c \<in> set (candidates a). schedule_matches (tz (ready_at c)) sched)
      else kind a = ''single'' \<and> \<not> washdown_hint a)"

text \<open>
  The two pools agree (section 3 of the specification: the site pools are a secondary
  index of the camera pool): keys are distinct, as in any dictionary; no site pool is
  empty; an entry of a site pool is filed under its candidate's camera and site and is the
  camera pool's entry for that camera; and an entry of the camera pool is filed under its
  candidate's camera and is in the pool of its candidate's site.
\<close>

definition pools_consistent :: "SiteAlertAggregator \<Rightarrow> bool" where
  "pools_consistent A \<longleftrightarrow>
     distinct (map fst (pending_by_camera A)) \<and>
     distinct (map fst (pending_by_site A)) \<and>
     (\<forall>sp \<in> set (pending_by_site A).
        snd sp \<noteq> [] \<and> distinct (map fst (snd sp)) \<and>
        (\<forall>kc \<in> set (snd sp).
           camera_id (snd kc) = fst kc \<and> site_id (snd kc) = fst sp \<and>
           map_of (pending_by_camera A) (fst kc) = Some (snd kc))) \<and>
     (\<forall>kc \<in> set (pending_by_camera A).
        camera_id (snd kc) = fst kc \<and>
        (case map_of (pending_by_site A) (site_id (snd kc)) of
           None \<Rightarrow> False
         | Some p \<Rightarrow> map_of p (fst kc) = Some (snd kc)))"

text \<open>
  A weaker agreement that every operation keeps without any condition: site keys are
  distinct and every entry is filed under the camera of its candidate.
\<close>

definition pools_keyed :: "SiteAlertAggregator \<Rightarrow> bool" where
  "pools_keyed A \<longleftrightarrow>
     distinct (map fst (pending_by_site A)) \<and>
     (\<forall>kc \<in> set (pending_by_camera A). camera_id (snd kc) = fst kc) \<and>
     (\<forall>sp \<in> set (pending_by_site A). \<forall>kc \<in> set (snd sp). camera_id (snd kc) = fst kc)"

definition camera_absent :: "string \<Rightarrow> SiteAlertAggregator \<Rightarrow> bool" where
  "camera_absent k A \<longleftrightarrow>
     k \<notin> fst ` set (pending_by_camera A) \<and>
     (\<forall>sp \<in> set (pending_by_site A). k \<notin> fst ` set (snd sp))"

text \<open>Every site pool of \<open>S'\<close> is part of the pool of the same site in \<open>S\<close>.\<close>

definition pools_sub ::
  "(string \<times> (string \<times> AlertCandidate) list) list
     \<Rightarrow> (string \<times> (string \<times> AlertCandidate) list) list \<Rightarrow> bool" where
  "pools_sub S' S \<longleftrightarrow>
     (\<forall>sp' \<in> set S'. \<exists>sp \<in> set S. fst sp = fst sp' \<and> set (snd sp') \<subseteq> set (snd sp))"

text \<open>The pool of a site after its turn in the first loop, and all the site pools after
  the first loop when the snapshot is the dictionary itself.\<close>

definition step_pool ::
  "datetime \<Rightarrow> SiteAlertAggregator \<Rightarrow> string \<Rightarrow> (string \<times> AlertCandidate) list
     \<Rightarrow> (string \<times> AlertCandidate) list" where
  "step_pool now A s p = (if fires now A s p then pop_all (active_of now A p) p else p)"

definition new_pools ::
  "datetime \<Rightarrow> SiteAlertAggregator \<Rightarrow> (string \<times> (string \<times> AlertCandidate) list) list
     \<Rightarrow> (string \<times> (string \<times> AlertCandidate) list) list" where
  "new_pools now A snap =
     map (\<lambda>sp. (fst sp, step_pool now A (fst sp) (snd sp)))
       (filter (\<lambda>sp. step_pool now A (fst sp) (snd sp) \<noteq> []) snap)"

text \<open>Sequences of calls of the aggregator's three methods.\<close>

datatype agg_op = Enqueue AlertCandidate | Cancel string | Flush datetime

fun apply_op :: "(datetime \<Rightarrow> dtime) \<Rightarrow> SiteAlertAggregator \<Rightarrow> agg_op \<Rightarrow> SiteAlertAggregator" where
  "apply_op tz A (Enqueue candidate) = enqueue candidate A"
| "apply_op tz A (Cancel cam) = cancel cam A"
| "apply_op tz A (Flush now) = snd (process tz now A)"

definition run_ops :: "(datetime \<Rightarrow> dtime) \<Rightarrow> agg_op list \<Rightarrow> SiteAlertAggregator \<Rightarrow> SiteAlertAggregator" where
  "run_ops tz ops A = foldl (apply_op tz) A ops"

text \<open>What \<open>_after_alert\<close> writes into the state of one camera, and a run of
  observations.\<close>

definition respond_state :: "datetime \<Rightarrow> string \<Rightarrow> timedelta \<Rightarrow> CameraAlertState \<Rightarrow> CameraAlertState" where
  "respond_state now decision delay st =
     (if decision = ''clean''
      then st\<lparr> pending_candidate := False, is_blurry := False, blur_start := None,
               alert_open := False, last_alert_until := None \<rparr>
      else st\<lparr> pending_candidate := False, alert_open := True,
               last_alert_until := Some (now + delay) \<rparr>)"

definition observe_all :: "(datetime \<times> string \<times> bool) list \<Rightarrow> AlertEngine \<Rightarrow> AlertEngine" where
  "observe_all obs E = foldl (\<lambda>E ob. AlertEngine_process (fst ob) (fst (snd ob)) (snd (snd ob)) E) E obs"

text \<open>The pending candidate that the aggregator holds for a camera.\<close>

definition aggregator_camera :: "AlertEngine \<Rightarrow> string \<Rightarrow> AlertCandidate option" where
  "aggregator_camera E cam = map_of (pending_by_camera (aggregator E)) cam"

text \<open>The simulator, when there is one, does not hold the camera as blurry.\<close>

definition flag_clear :: "string \<Rightarrow> AlertEngine \<Rightarrow> bool" where
  "flag_clear cam E \<longleftrightarrow> (case simulator E of None \<Rightarrow> True | Some sim \<Rightarrow> sim cam \<noteq> Some True)"


text \<open>The candidate that \<open>AlertEngine.process\<close> builds, and the state it reads (a camera
  seen for the first time gets the default state).\<close>

definition mk_candidate :: "AlertEngine \<Rightarrow> string \<Rightarrow> datetime \<Rightarrow> datetime \<Rightarrow> AlertCandidate" where
  "mk_candidate E cam since now =
     \<lparr> camera_id = cam, line_number = line_lookup E cam, blur_since = since, ready_at = now,
       site_id = (case site_lookup E cam of None \<Rightarrow> DEFAULT_SITE_ID | Some s \<Rightarrow> s) \<rparr>"

definition state_or_init :: "AlertEngine \<Rightarrow> string \<Rightarrow> CameraAlertState" where
  "state_or_init E cam = (case state E cam of None \<Rightarrow> CameraAlertState_init | Some s \<Rightarrow> s)"

section \<open>Concrete inputs\<close>

text \<open>The local time of day on a machine whose zone is UTC.\<close>

definition utc_time :: "datetime \<Rightarrow> dtime" where
  "utc_time t = (nat (t div 3600000000 mod 24), nat (t div 60000000 mod 60),
                 nat (t div 1000000 mod 60), nat (t mod 1000000))"

text \<open>One candidate, ready 30 s after the epoch, in an aggregator with a window of 10 s
  and a quorum of three (the set-up of \<open>test_single_alert_emitted_when_window_expires\<close>).\<close>

definition cam99 :: AlertCandidate where
  "cam99 = \<lparr> camera_id = ''CAM-99'', line_number = Some 1, blur_since = 0,
             ready_at = 30000000, site_id = ''SiteA'' \<rparr>"

definition agg_one :: SiteAlertAggregator where
  "agg_one = enqueue cam99 (SiteAlertAggregator_init 10 3 60 None)"

text \<open>The same with a cooldown of the site that ends 100 s after the epoch.\<close>

definition agg_cooling :: SiteAlertAggregator where
  "agg_cooling = agg_one\<lparr> site_cooldown := [''SiteA'' \<mapsto> 100000000] \<rparr>"

text \<open>One candidate in an aggregator built with a quorum of one.\<close>

definition cam01 :: AlertCandidate where
  "cam01 = \<lparr> camera_id = ''CAM-01'', line_number = Some 1, blur_since = 0,
             ready_at = 1000000, site_id = ''SiteA'' \<rparr>"

definition agg_min1 :: SiteAlertAggregator where
  "agg_min1 = enqueue cam01 (SiteAlertAggregator_init 5 1 10 None)"

text \<open>Two candidates ready at 00:30 UTC, and a washdown range from 23:00 to 01:00.\<close>

definition cam_a :: AlertCandidate where
  "cam_a = \<lparr> camera_id = ''CAM-01'', line_number = Some 1, blur_since = 1770000000,
             ready_at = 1800000000, site_id = ''SiteA'' \<rparr>"

definition cam_b :: AlertCandidate where
  "cam_b = \<lparr> camera_id = ''CAM-02'', line_number = Some 2, blur_since = 1770000000,
             ready_at = 1800000000, site_id = ''SiteA'' \<rparr>"

definition agg_first :: SiteAlertAggregator where
  "agg_first =
     enqueue cam_a (SiteAlertAggregator_init 30 2 60 (Some [((23, 0, 0, 0), (1, 0, 0, 0))]))"

definition agg_washdown :: SiteAlertAggregator where
  "agg_washdown = enqueue cam_b agg_first"

text \<open>Two more candidates of the same site, ready 15 s later.\<close>

definition cam_c :: AlertCandidate where
  "cam_c = \<lparr> camera_id = ''CAM-03'', line_number = Some 3, blur_since = 1785000000,
             ready_at = 1815000000, site_id = ''SiteA'' \<rparr>"

definition cam_d :: AlertCandidate where
  "cam_d = \<lparr> camera_id = ''CAM-04'', line_number = Some 4, blur_since = 1785000000,
             ready_at = 1815000000, site_id = ''SiteA'' \<rparr>"

text \<open>The engine of \<open>test_alert_engine.py\<close> with camera CAM-01 blurry since the epoch and a
  candidate pending; the simulator holds the camera as blurry.\<close>

definition st_pending :: CameraAlertState where
  "st_pending = \<lparr> is_blurry = True, blur_start = Some 0, last_alert_until = None,
                  alert_open = False, pending_candidate = True \<rparr>"

definition engine_pending :: AlertEngine where
  "engine_pending =
     (AlertEngine_init [''CAM-01'' \<mapsto> 1] [''CAM-01'' \<mapsto> ''SiteA''] (Some [''CAM-01'' \<mapsto> True]) []
        1 30 5 1 10 None) \<lparr> state := [''CAM-01'' \<mapsto> st_pending] \<rparr>"

lemma schedule_matches_iff:
  "schedule_matches t sched \<longleftrightarrow>
     (\<exists>se \<in> set sched. (fst se \<le> snd se \<and> fst se \<le> t \<and> t \<le> snd se) \<or>
                        (snd se < fst se \<and> (fst se \<le> t \<or> t \<le> snd se)))"
  by (induction sched) auto

lemma within_washdown_loop_iff:
  "within_washdown_loop tz sched cands \<longleftrightarrow>
     (\<exists>c \<in> set cands. schedule_matches (tz (ready_at c)) sched)"
  by (induction cands) auto

lemma within_washdown_iff:
  "within_washdown tz A cands \<longleftrightarrow>
     (\<exists>c \<in> set cands. schedule_matches (tz (ready_at c)) (washdown_schedule A))"
  by (auto simp: within_washdown_def within_washdown_loop_iff)

lemma site_step_config:
  "window (snd (site_step tz now s p acc)) = window (snd acc)"
  "min_count (snd (site_step tz now s p acc)) = min_count (snd acc)"
  "suppress (snd (site_step tz now s p acc)) = suppress (snd acc)"
  "washdown_schedule (snd (site_step tz now s p acc)) = washdown_schedule (snd acc)"
  by (simp_all add: site_step_def Let_def)

lemma process_sites_config:
  "window (snd (process_sites tz now snap acc)) = window (snd acc)"
  "min_count (snd (process_sites tz now snap acc)) = min_count (snd acc)"
  "suppress (snd (process_sites tz now snap acc)) = suppress (snd acc)"
  "washdown_schedule (snd (process_sites tz now snap acc)) = washdown_schedule (snd acc)"
  by (induction snap arbitrary: acc) (simp_all add: site_step_config)

lemma single_step_config:
  "window (snd (single_step now k c acc)) = window (snd acc)"
  "min_count (snd (single_step now k c acc)) = min_count (snd acc)"
  "suppress (snd (single_step now k c acc)) = suppress (snd acc)"
  "washdown_schedule (snd (single_step now k c acc)) = washdown_schedule (snd acc)"
  "site_cooldown (snd (single_step now k c acc)) = site_cooldown (snd acc)"
  by (simp_all add: single_step_def Let_def)

lemma process_singles_config:
  "window (snd (process_singles now snap acc)) = window (snd acc)"
  "min_count (snd (process_singles now snap acc)) = min_count (snd acc)"
  "suppress (snd (process_singles now snap acc)) = suppress (snd acc)"
  "washdown_schedule (snd (process_singles now snap acc)) = washdown_schedule (snd acc)"
  "site_cooldown (snd (process_singles now snap acc)) = site_cooldown (snd acc)"
  by (induction snap arbitrary: acc) (simp_all add: single_step_config)

lemma site_step_hint:
  "list_all (hint_ok tz (washdown_schedule (snd acc))) (fst acc) \<Longrightarrow>
   list_all (hint_ok tz (washdown_schedule (snd acc))) (fst (site_step tz now s p acc))"
  by (simp add: site_step_def Let_def hint_ok_def within_washdown_iff)

lemma process_sites_hint:
  "list_all (hint_ok tz (washdown_schedule (snd acc))) (fst acc) \<Longrightarrow>
   list_all (hint_ok tz (washdown_schedule (snd acc))) (fst (process_sites tz now snap acc))"
proof (induction snap arbitrary: acc)
  case Nil
  then show ?case by simp
next
  case (Cons sp snap)
  have "list_all (hint_ok tz (washdown_schedule (snd (site_step tz now (fst sp) (snd sp) acc))))
          (fst (site_step tz now (fst sp) (snd sp) acc))"
    using site_step_hint[OF Cons.prems] by (simp add: site_step_config)
  from Cons.IH[OF this] show ?case by (simp add: site_step_config)
qed

lemma single_step_hint:
  "list_all (hint_ok tz sched) (fst acc) \<Longrightarrow>
   list_all (hint_ok tz sched) (fst (single_step now k c acc))"
  by (simp add: single_step_def Let_def hint_ok_def)

lemma process_singles_hint:
  "list_all (hint_ok tz sched) (fst acc) \<Longrightarrow>
   list_all (hint_ok tz sched) (fst (process_singles now snap acc))"
  by (induction snap arbitrary: acc) (simp_all add: single_step_hint)

lemma process_hint:
  "list_all (hint_ok tz (washdown_schedule A)) (fst (process tz now A))"
  unfolding process_def Let_def
  apply (rule process_singles_hint)
  using process_sites_hint[of tz "([], A)" now "pending_by_site A"]
  by simp

lemma map_of_od_pop: "map_of (od_pop k d) k' = (if k' = k then None else map_of d k')"
  by (induction d) (auto simp: od_pop_def)

lemma set_od_pop: "set (od_pop k d) = {kv \<in> set d. fst kv \<noteq> k}"
  by (auto simp: od_pop_def)

lemma distinct_od_pop: "distinct (map fst d) \<Longrightarrow> distinct (map fst (od_pop k d))"
  by (simp add: od_pop_def distinct_map_filter)

lemma pop_all_filter: "pop_all cs d = filter (\<lambda>kv. fst kv \<notin> camera_id ` set cs) d"
proof (induction cs arbitrary: d)
  case Nil
  then show ?case by (simp add: pop_all_def)
next
  case (Cons c cs)
  have "pop_all (c # cs) d = pop_all cs (od_pop (camera_id c) d)"
    by (simp add: pop_all_def)
  also have "\<dots> = filter (\<lambda>kv. fst kv \<notin> camera_id ` set cs) (od_pop (camera_id c) d)"
    by (rule Cons.IH)
  also have "\<dots> = filter (\<lambda>kv. fst kv \<notin> camera_id ` set (c # cs)) d"
    by (auto simp: od_pop_def intro: filter_cong)
  finally show ?case .
qed

lemma map_of_filter_key:
  "map_of (filter (\<lambda>kv. P (fst kv)) d) k = (if P k then map_of d k else None)"
  by (induction d) auto

lemma map_of_pop_all:
  "map_of (pop_all cs d) k = (if k \<in> camera_id ` set cs then None else map_of d k)"
  using map_of_filter_key[of "\<lambda>k. k \<notin> camera_id ` set cs" d k]
  by (simp add: pop_all_filter)

lemma map_fst_od_update: "map fst (od_update k v d) = map fst d"
  by (induction d) (auto simp: od_update_def)

lemma od_update_absent: "k \<notin> fst ` set d \<Longrightarrow> od_update k v d = d"
  by (induction d) (auto simp: od_update_def)

lemma map_of_od_update_present:
  "k \<in> fst ` set d \<Longrightarrow> map_of (od_update k v d) = (map_of d)(k \<mapsto> v)"
proof (induction d)
  case Nil
  then show ?case by simp
next
  case (Cons kv d)
  show ?case
  proof (cases "k \<in> fst ` set d")
    case True
    from Cons.IH[OF True] show ?thesis by (auto simp: od_update_def fun_eq_iff)
  next
    case False
    with Cons.prems have "fst kv = k" by auto
    with od_update_absent[OF False, of v] show ?thesis
      by (auto simp: od_update_def fun_eq_iff)
  qed
qed

lemma map_of_od_update:
  "map_of (od_update k v d) k' = (if k' = k \<and> k \<in> fst ` set d then Some v else map_of d k')"
  by (cases "k \<in> fst ` set d") (simp_all add: od_update_absent map_of_od_update_present)

lemma map_of_od_set: "map_of (od_set k v d) = (map_of d)(k \<mapsto> v)"
  by (induction d) (auto simp: fun_eq_iff)

lemma map_fst_od_set:
  "map fst (od_set k v d) = (if k \<in> fst ` set d then map fst d else map fst d @ [k])"
  by (induction d) auto

lemma od_pop_absent: "k \<notin> fst ` set d \<Longrightarrow> od_pop k d = d"
  by (induction d) (auto simp: od_pop_def)

lemma distinct_fst_ConsD:
  "distinct (map fst (sp # snap)) \<Longrightarrow> x \<in> set snap \<Longrightarrow> fst x \<noteq> fst sp"
  by (cases sp; cases x) (auto simp: image_iff)

text \<open>One site of the first loop, in closed form.\<close>

lemma site_step_fst:
  "fst (site_step tz now s p acc) =
     (if fires now (snd acc) s p then fst acc @ [agg_action tz now (snd acc) s p] else fst acc)"
  by (simp add: site_step_def Let_def fires_def active_of_def agg_action_def)

lemma site_step_cooldown:
  "site_cooldown (snd (site_step tz now s p acc)) =
     (if fires now (snd acc) s p then (site_cooldown (snd acc))(s \<mapsto> now + suppress (snd acc))
      else site_cooldown (snd acc))"
  by (simp add: site_step_def Let_def fires_def active_of_def)

lemma site_step_camera_pool:
  "pending_by_camera (snd (site_step tz now s p acc)) =
     (if fires now (snd acc) s p then pop_all (active_of now (snd acc) p) (pending_by_camera (snd acc))
      else pending_by_camera (snd acc))"
  by (simp add: site_step_def Let_def fires_def active_of_def)

lemma fires_cong:
  "window A' = window A \<Longrightarrow> min_count A' = min_count A \<Longrightarrow> site_cooldown A' s = site_cooldown A s
     \<Longrightarrow> fires now A' s p = fires now A s p"
  by (simp add: fires_def active_of_def)

lemma active_of_cong: "window A' = window A \<Longrightarrow> active_of now A' p = active_of now A p"
  by (simp add: active_of_def)

lemma agg_action_cong:
  "window A' = window A \<Longrightarrow> washdown_schedule A' = washdown_schedule A
     \<Longrightarrow> agg_action tz now A' s p = agg_action tz now A s p"
  by (simp add: agg_action_def active_of_def within_washdown_def)

lemma process_sites_fst:
  "distinct (map fst snap) \<Longrightarrow>
   fst (process_sites tz now snap acc) =
     fst acc @ map (\<lambda>sp. agg_action tz now (snd acc) (fst sp) (snd sp))
                 (filter (\<lambda>sp. fires now (snd acc) (fst sp) (snd sp)) snap)"
proof (induction snap arbitrary: acc)
  case Nil
  then show ?case by simp
next
  case (Cons sp snap)
  let ?acc' = "site_step tz now (fst sp) (snd sp) acc"
  have cfg: "window (snd ?acc') = window (snd acc)" "min_count (snd ?acc') = min_count (snd acc)"
    "washdown_schedule (snd ?acc') = washdown_schedule (snd acc)"
    by (simp_all add: site_step_config)
  have cd: "site_cooldown (snd ?acc') s = site_cooldown (snd acc) s" if "s \<noteq> fst sp" for s
    using that by (simp add: site_step_cooldown)
  have f: "fires now (snd ?acc') (fst x) (snd x) = fires now (snd acc) (fst x) (snd x)"
    if "x \<in> set snap" for x
  proof -
    from distinct_fst_ConsD[OF Cons.prems that] have "fst x \<noteq> fst sp" .
    then show ?thesis by (intro fires_cong cfg cd)
  qed
  have a: "agg_action tz now (snd ?acc') s p = agg_action tz now (snd acc) s p" for s p
    by (intro agg_action_cong cfg)
  from Cons.prems have "distinct (map fst snap)" by simp
  from Cons.IH[OF this, of ?acc']
  have "fst (process_sites tz now (sp # snap) acc) =
          fst ?acc' @ map (\<lambda>sp. agg_action tz now (snd acc) (fst sp) (snd sp))
                        (filter (\<lambda>sp. fires now (snd ?acc') (fst sp) (snd sp)) snap)"
    by (simp add: a)
  also have "filter (\<lambda>sp. fires now (snd ?acc') (fst sp) (snd sp)) snap =
             filter (\<lambda>sp. fires now (snd acc) (fst sp) (snd sp)) snap"
    by (rule filter_cong) (simp_all add: f)
  finally show ?case by (simp add: site_step_fst)
qed

lemma process_sites_cooldown:
  "distinct (map fst snap) \<Longrightarrow>
   site_cooldown (snd (process_sites tz now snap acc)) s =
     (if \<exists>p. (s, p) \<in> set snap \<and> fires now (snd acc) s p
      then Some (now + suppress (snd acc)) else site_cooldown (snd acc) s)"
proof (induction snap arbitrary: acc)
  case Nil
  then show ?case by simp
next
  case (Cons sp snap)
  let ?acc' = "site_step tz now (fst sp) (snd sp) acc"
  have cfg: "window (snd ?acc') = window (snd acc)" "min_count (snd ?acc') = min_count (snd acc)"
    "suppress (snd ?acc') = suppress (snd acc)"
    by (simp_all add: site_step_config)
  have cd: "site_cooldown (snd ?acc') s = site_cooldown (snd acc) s" if "s \<noteq> fst sp" for s
    using that by (simp add: site_step_cooldown)
  have f: "fires now (snd ?acc') s' p = fires now (snd acc) s' p"
    if "(s', p) \<in> set snap" for s' p
  proof -
    from distinct_fst_ConsD[OF Cons.prems that] have "s' \<noteq> fst sp" by simp
    then show ?thesis by (intro fires_cong cfg cd)
  qed
  from Cons.prems have d: "distinct (map fst snap)" and nin: "fst sp \<notin> fst ` set snap" by simp_all
  have IH: "site_cooldown (snd (process_sites tz now snap ?acc')) s =
     (if \<exists>p. (s, p) \<in> set snap \<and> fires now (snd acc) s p
      then Some (now + suppress (snd acc)) else site_cooldown (snd ?acc') s)"
    using Cons.IH[OF d, of ?acc'] f by (auto simp: cfg)
  show ?case
  proof (cases "s = fst sp")
    case True
    with nin have "\<not> (\<exists>p. (s, p) \<in> set snap \<and> fires now (snd acc) s p)"
      by (auto simp: image_iff)
    with IH True show ?thesis
      by (cases sp) (auto simp: site_step_cooldown dest: )
  next
    case False
    from cd[OF False] have "site_cooldown (snd ?acc') s = site_cooldown (snd acc) s" .
    moreover from False have "(\<exists>p. (s, p) \<in> set (sp # snap) \<and> fires now (snd acc) s p)
        = (\<exists>p. (s, p) \<in> set snap \<and> fires now (snd acc) s p)"
      by (cases sp) auto
    ultimately show ?thesis using IH by (simp only: process_sites.simps)
  qed
qed

lemma swept_Nil [simp]: "\<not> swept now A [] k"
  by (simp add: swept_def)

lemma swept_Cons:
  "swept now A (sp # snap) k \<longleftrightarrow>
     (fires now A (fst sp) (snd sp) \<and> k \<in> camera_id ` set (active_of now A (snd sp))) \<or> swept now A snap k"
  by (simp add: swept_def)

lemma swept_cong:
  assumes "window A' = window A" "min_count A' = min_count A"
    and "\<And>x. x \<in> set snap \<Longrightarrow> site_cooldown A' (fst x) = site_cooldown A (fst x)"
  shows "swept now A' snap k = swept now A snap k"
proof -
  have "fires now A' (fst x) (snd x) = fires now A (fst x) (snd x)" if "x \<in> set snap" for x
    by (intro fires_cong assms that)
  moreover have "active_of now A' p = active_of now A p" for p
    by (rule active_of_cong[OF assms(1)])
  ultimately show ?thesis unfolding swept_def by auto
qed

lemma process_sites_camera_pool:
  "distinct (map fst snap) \<Longrightarrow>
   pending_by_camera (snd (process_sites tz now snap acc)) =
     filter (\<lambda>kv. \<not> swept now (snd acc) snap (fst kv)) (pending_by_camera (snd acc))"
proof (induction snap arbitrary: acc)
  case Nil
  then show ?case by simp
next
  case (Cons sp snap)
  let ?acc' = "site_step tz now (fst sp) (snd sp) acc"
  have cfg: "window (snd ?acc') = window (snd acc)" "min_count (snd ?acc') = min_count (snd acc)"
    by (simp_all add: site_step_config)
  have cd: "site_cooldown (snd ?acc') (fst x) = site_cooldown (snd acc) (fst x)"
    if "x \<in> set snap" for x
    using distinct_fst_ConsD[OF Cons.prems that] by (simp add: site_step_cooldown)
  have sw: "swept now (snd ?acc') snap k = swept now (snd acc) snap k" for k
    by (rule swept_cong) (simp_all add: cfg cd)
  from Cons.prems have d: "distinct (map fst snap)" by simp
  have "pending_by_camera (snd (process_sites tz now (sp # snap) acc)) =
          filter (\<lambda>kv. \<not> swept now (snd acc) snap (fst kv)) (pending_by_camera (snd ?acc'))"
    using Cons.IH[OF d, of ?acc'] by (simp add: sw)
  also have "\<dots> = filter (\<lambda>kv. \<not> swept now (snd acc) (sp # snap) (fst kv)) (pending_by_camera (snd acc))"
    by (auto simp: site_step_camera_pool pop_all_filter swept_Cons intro: filter_cong)
  finally show ?case .
qed

text \<open>The second loop.\<close>

lemma single_step_fst:
  "fst (single_step now k c acc) =
     (if aged now (snd acc) c then fst acc @ [single_action c] else fst acc)"
  by (simp add: single_step_def Let_def aged_def single_action_def)

lemma single_step_camera_pool:
  "pending_by_camera (snd (single_step now k c acc)) =
     (if aged now (snd acc) c then od_pop k (pending_by_camera (snd acc))
      else pending_by_camera (snd acc))"
  by (simp add: single_step_def Let_def aged_def)

lemma aged_cong: "window A' = window A \<Longrightarrow> aged now A' c = aged now A c"
  by (simp add: aged_def)

lemma process_singles_fst:
  "fst (process_singles now snap acc) =
     fst acc @ map single_action (filter (aged now (snd acc)) (map snd snap))"
proof (induction snap arbitrary: acc)
  case Nil
  then show ?case by simp
next
  case (Cons kc snap)
  have "aged now (snd (single_step now (fst kc) (snd kc) acc)) = aged now (snd acc)"
    by (intro ext aged_cong) (simp add: single_step_config)
  with Cons.IH[of "single_step now (fst kc) (snd kc) acc"] show ?case
    by (simp add: single_step_fst)
qed

lemma process_singles_camera_pool:
  "map_of (pending_by_camera (snd (process_singles now snap acc))) k =
     (if \<exists>c. (k, c) \<in> set snap \<and> aged now (snd acc) c then None
      else map_of (pending_by_camera (snd acc)) k)"
proof (induction snap arbitrary: acc)
  case Nil
  then show ?case by simp
next
  case (Cons kc snap)
  let ?acc' = "single_step now (fst kc) (snd kc) acc"
  have ag: "aged now (snd ?acc') = aged now (snd acc)"
    by (intro ext aged_cong) (simp add: single_step_config)
  have IH: "map_of (pending_by_camera (snd (process_singles now (kc # snap) acc))) k =
     (if \<exists>c. (k, c) \<in> set snap \<and> aged now (snd acc) c then None
      else map_of (pending_by_camera (snd ?acc')) k)"
    using Cons.IH[of ?acc'] by (simp add: ag)
  show ?case
  proof (cases "k = fst kc \<and> aged now (snd acc) (snd kc)")
    case True
    then have "\<exists>c. (k, c) \<in> set (kc # snap) \<and> aged now (snd acc) c"
      by (cases kc) auto
    moreover from True have "map_of (pending_by_camera (snd ?acc')) k = None"
      by (simp add: single_step_camera_pool map_of_od_pop)
    ultimately show ?thesis using IH by auto
  next
    case False
    then have "(\<exists>c. (k, c) \<in> set (kc # snap) \<and> aged now (snd acc) c)
             = (\<exists>c. (k, c) \<in> set snap \<and> aged now (snd acc) c)"
      by (cases kc) auto
    moreover from False have "map_of (pending_by_camera (snd ?acc')) k = map_of (pending_by_camera (snd acc)) k"
      by (auto simp: single_step_camera_pool map_of_od_pop)
    ultimately show ?thesis using IH by (simp only:)
  qed
qed

text \<open>The dispatch list of a whole flush, in closed form.\<close>

lemma process_fst:
  assumes "distinct (map fst (pending_by_site A))"
  shows "fst (process tz now A) =
     map (\<lambda>sp. agg_action tz now A (fst sp) (snd sp))
       (filter (\<lambda>sp. fires now A (fst sp) (snd sp)) (pending_by_site A)) @
     map single_action
       (filter (aged now A)
          (map snd (filter (\<lambda>kv. \<not> swept now A (pending_by_site A) (fst kv)) (pending_by_camera A))))"
proof -
  let ?acc1 = "process_sites tz now (pending_by_site A) ([], A)"
  have "aged now (snd ?acc1) = aged now A"
    by (intro ext aged_cong) (simp add: process_sites_config)
  then show ?thesis
    unfolding process_def Let_def
    by (simp add: process_singles_fst process_sites_fst[OF assms] process_sites_camera_pool[OF assms])
qed

lemma consistentD_site:
  assumes "pools_consistent A" "(s, p) \<in> set (pending_by_site A)" "(k, c) \<in> set p"
  shows "camera_id c = k" "site_id c = s" "map_of (pending_by_camera A) k = Some c"
    "(k, c) \<in> set (pending_by_camera A)"
proof -
  from assms show a: "camera_id c = k" "site_id c = s" "map_of (pending_by_camera A) k = Some c"
    unfolding pools_consistent_def by force+
  from a(3) show "(k, c) \<in> set (pending_by_camera A)" by (rule map_of_SomeD)
qed

lemma consistentD_camera:
  assumes "pools_consistent A" "(k, c) \<in> set (pending_by_camera A)"
  shows "camera_id c = k"
  using assms unfolding pools_consistent_def by force

lemma consistentD_distinct:
  assumes "pools_consistent A"
  shows "distinct (map fst (pending_by_camera A))" "distinct (map fst (pending_by_site A))"
  using assms unfolding pools_consistent_def by simp_all

lemma consistent_site_lookup:
  assumes "pools_consistent A" "(s, p) \<in> set (pending_by_site A)"
  shows "map_of (pending_by_site A) s = Some p"
  using assms consistentD_distinct(2)[OF assms(1)] by simp

text \<open>A camera that sits in a site's pool sits in no other site's pool.\<close>

lemma consistent_site_unique:
  assumes "pools_consistent A" "(s, p) \<in> set (pending_by_site A)" "(k, c) \<in> set p"
    and "(s', p') \<in> set (pending_by_site A)" "(k, c') \<in> set p'"
  shows "s' = s \<and> p' = p \<and> c' = c"
proof -
  have "map_of (pending_by_camera A) k = Some c" "map_of (pending_by_camera A) k = Some c'"
    using consistentD_site(3)[OF assms(1,2,3)] consistentD_site(3)[OF assms(1,4,5)] by simp_all
  then have c: "c' = c" by simp
  with consistentD_site(2)[OF assms(1,2,3)] consistentD_site(2)[OF assms(1,4,5)]
  have s: "s' = s" by simp
  with consistent_site_lookup[OF assms(1,2)] consistent_site_lookup[OF assms(1,4)]
  have "p' = p" by simp
  with c s show ?thesis by simp
qed

lemma in_active_of: "c \<in> set (active_of now A p) \<longleftrightarrow> c \<in> snd ` set p \<and> now - ready_at c \<le> window A"
  by (auto simp: active_of_def)

lemma set_process:
  assumes "distinct (map fst (pending_by_site A))"
  shows "set (fst (process tz now A)) =
     {agg_action tz now A (fst sp) (snd sp) | sp. sp \<in> set (pending_by_site A) \<and> fires now A (fst sp) (snd sp)} \<union>
     {single_action c | k c. (k, c) \<in> set (pending_by_camera A) \<and> \<not> swept now A (pending_by_site A) k \<and> aged now A c}"
  unfolding process_fst[OF assms] by force

lemma swept_consistent:
  assumes "pools_consistent A" "(s, p) \<in> set (pending_by_site A)" "(k, c) \<in> set p"
  shows "swept now A (pending_by_site A) k \<longleftrightarrow> fires now A s p \<and> now - ready_at c \<le> window A"
proof
  assume "swept now A (pending_by_site A) k"
  then obtain sp c' where sp: "sp \<in> set (pending_by_site A)" "fires now A (fst sp) (snd sp)"
    and c': "c' \<in> set (active_of now A (snd sp))" "k = camera_id c'"
    unfolding swept_def by auto
  from c'(1) obtain k' where k': "(k', c') \<in> set (snd sp)" and act: "now - ready_at c' \<le> window A"
    by (auto simp: in_active_of)
  from sp(1) have sp': "(fst sp, snd sp) \<in> set (pending_by_site A)" by simp
  from consistentD_site(1)[OF assms(1) sp' k'] c'(2) have "k' = k" by simp
  with k' have "(k, c') \<in> set (snd sp)" by simp
  from consistent_site_unique[OF assms(1,2,3) sp' this]
  have "fst sp = s" "snd sp = p" "c' = c" by simp_all
  with sp(2) act show "fires now A s p \<and> now - ready_at c \<le> window A" by simp
next
  assume a: "fires now A s p \<and> now - ready_at c \<le> window A"
  from assms(3) a have "c \<in> set (active_of now A p)" by (force simp: in_active_of)
  moreover have "camera_id c = k" by (rule consistentD_site(1)[OF assms])
  ultimately show "swept now A (pending_by_site A) k"
    unfolding swept_def using assms(2) a by force
qed

lemma kind_agg_action [simp]: "kind (agg_action tz now A s p) = ''aggregate''"
  "action_site_id (agg_action tz now A s p) = s"
  "candidates (agg_action tz now A s p) = active_of now A p"
  by (simp_all add: agg_action_def)

lemma kind_single_action [simp]: "kind (single_action c) = ''single''"
  "action_site_id (single_action c) = site_id c"
  "candidates (single_action c) = [c]"
  "washdown_hint (single_action c) = False"
  by (simp_all add: single_action_def)

lemma single_action_inj [simp]: "single_action c = single_action c' \<longleftrightarrow> c = c'"
  by (auto simp: single_action_def)

lemma agg_neq_single [simp]: "agg_action tz now A s p \<noteq> single_action c"
  "single_action c \<noteq> agg_action tz now A s p"
  by (auto simp: single_action_def agg_action_def)

lemma single_step_cooldown_indep:
  "single_step now k c (ds, A\<lparr>site_cooldown := cd\<rparr>) =
     (fst (single_step now k c (ds, A)), (snd (single_step now k c (ds, A)))\<lparr>site_cooldown := cd\<rparr>)"
  by (simp add: single_step_def Let_def)

lemma process_singles_cooldown_indep:
  "process_singles now snap (ds, A\<lparr>site_cooldown := cd\<rparr>) =
     (fst (process_singles now snap (ds, A)), (snd (process_singles now snap (ds, A)))\<lparr>site_cooldown := cd\<rparr>)"
proof (induction snap arbitrary: ds A)
  case Nil
  then show ?case by simp
next
  case (Cons kc snap)
  show ?case
    using Cons.IH[of "fst (single_step now (fst kc) (snd kc) (ds, A))"
                     "snd (single_step now (fst kc) (snd kc) (ds, A))"]
    by (simp add: single_step_cooldown_indep)
qed

subsection \<open>What the operations do to the pools\<close>

lemma od_set_absent: "k \<notin> fst ` set d \<Longrightarrow> od_set k v d = d @ [(k, v)]"
  by (induction d) auto

lemma set_od_set: "set (od_set k v d) \<subseteq> insert (k, v) (set d)"
  by (induction d) auto

lemma distinct_od_set: "distinct (map fst d) \<Longrightarrow> distinct (map fst (od_set k v d))"
  by (simp add: map_fst_od_set)

lemma od_update_split:
  "k \<notin> fst ` set pre \<Longrightarrow> k \<notin> fst ` set rest \<Longrightarrow>
     od_update k v (pre @ (k, w) # rest) = pre @ (k, v) # rest"
  by (simp add: od_update_absent[unfolded od_update_def] od_update_def)

lemma od_pop_split:
  "k \<notin> fst ` set pre \<Longrightarrow> k \<notin> fst ` set rest \<Longrightarrow>
     od_pop k (pre @ (k, w) # rest) = pre @ rest"
  by (simp add: od_pop_absent[unfolded od_pop_def] od_pop_def)

lemma od_update_od_set:
  "distinct (map fst d) \<Longrightarrow> map_of d k = Some v \<Longrightarrow> od_update k v (od_set k v' d) = d"
proof (induction d)
  case Nil
  then show ?case by simp
next
  case (Cons kv d)
  show ?case
  proof (cases "fst kv = k")
    case True
    with Cons.prems have "k \<notin> fst ` set d" "kv = (k, v)" by (auto simp: prod_eq_iff)
    then show ?thesis by (simp add: od_update_def) (auto simp: image_iff intro!: map_idI)
  next
    case False
    with Cons show ?thesis by (auto simp: od_update_def)
  qed
qed

lemma set_od_update: "set (od_update k v d) \<subseteq> insert (k, v) (set d)"
  by (auto simp: od_update_def)

lemma set_pop_all: "set (pop_all cs d) \<subseteq> set d"
  by (simp add: pop_all_filter)

lemma distinct_pop_all: "distinct (map fst d) \<Longrightarrow> distinct (map fst (pop_all cs d))"
  by (simp add: pop_all_filter distinct_map_filter)

lemma pools_sub_refl: "pools_sub S S"
  unfolding pools_sub_def
proof
  fix sp' assume "sp' \<in> set S"
  then show "\<exists>sp \<in> set S. fst sp = fst sp' \<and> set (snd sp') \<subseteq> set (snd sp)"
    by (intro bexI[of _ sp']) simp_all
qed

lemma pools_sub_trans:
  assumes "pools_sub S'' S'" "pools_sub S' S"
  shows "pools_sub S'' S"
  unfolding pools_sub_def
proof
  fix sp'' assume "sp'' \<in> set S''"
  with assms(1) obtain sp' where 1: "sp' \<in> set S'" "fst sp' = fst sp''" "set (snd sp'') \<subseteq> set (snd sp')"
    unfolding pools_sub_def by blast
  with assms(2) obtain sp where 2: "sp \<in> set S" "fst sp = fst sp'" "set (snd sp') \<subseteq> set (snd sp)"
    unfolding pools_sub_def by blast
  from 1 2 have "fst sp = fst sp'' \<and> set (snd sp'') \<subseteq> set (snd sp)" by simp
  with 2(1) show "\<exists>sp \<in> set S. fst sp = fst sp'' \<and> set (snd sp'') \<subseteq> set (snd sp)" ..
qed

lemma pools_sub_subset: "set S' \<subseteq> set S \<Longrightarrow> pools_sub S' S"
  unfolding pools_sub_def
proof
  fix sp' assume "set S' \<subseteq> set S" "sp' \<in> set S'"
  then have "sp' \<in> set S" by auto
  then show "\<exists>sp \<in> set S. fst sp = fst sp' \<and> set (snd sp') \<subseteq> set (snd sp)"
    by (intro bexI[of _ sp']) simp_all
qed

lemma pools_sub_od_pop: "pools_sub (od_pop s S) S"
  by (rule pools_sub_subset) (auto simp: od_pop_def)

lemma pools_sub_od_update:
  assumes "(s, p) \<in> set S" "set p' \<subseteq> set p"
  shows "pools_sub (od_update s p' S) S"
  unfolding pools_sub_def
proof
  fix sp' assume "sp' \<in> set (od_update s p' S)"
  with set_od_update[of s p' S] have "sp' = (s, p') \<or> sp' \<in> set S" by auto
  then show "\<exists>sp \<in> set S. fst sp = fst sp' \<and> set (snd sp') \<subseteq> set (snd sp)"
  proof
    assume "sp' = (s, p')"
    with assms show ?thesis by force
  next
    assume "sp' \<in> set S"
    then show ?thesis by (intro bexI[of _ sp']) simp_all
  qed
qed

lemma pools_sub_site_pool_pop: "pools_sub (site_pool_pop s k S) S"
proof (cases "map_of S s")
  case None
  then show ?thesis by (simp add: site_pool_pop_def pools_sub_refl)
next
  case (Some p)
  then have "(s, p) \<in> set S" by (rule map_of_SomeD)
  moreover have "set (od_pop k p) \<subseteq> set p" by (auto simp: od_pop_def)
  ultimately have "pools_sub (od_update s (od_pop k p) S) S" by (rule pools_sub_od_update)
  with Some show ?thesis by (simp add: site_pool_pop_def Let_def pools_sub_od_pop)
qed

lemma distinct_site_pool_pop:
  "distinct (map fst S) \<Longrightarrow> distinct (map fst (site_pool_pop s k S))"
  by (simp add: site_pool_pop_def Let_def distinct_od_pop map_fst_od_update split: option.split)

lemma map_of_site_pool_pop:
  "map_of (site_pool_pop s k S) s' =
     (if s' = s
      then (case map_of S s of None \<Rightarrow> None
            | Some p \<Rightarrow> if od_pop k p = [] then None else Some (od_pop k p))
      else map_of S s')"
proof (cases "map_of S s")
  case None
  then show ?thesis by (simp add: site_pool_pop_def)
next
  case (Some p)
  then have "s \<in> fst ` set S" by (force dest: map_of_SomeD)
  with Some show ?thesis
    by (simp add: site_pool_pop_def Let_def map_of_od_pop map_of_od_update)
qed

text \<open>The site pools after the first loop.\<close>

lemma site_step_site_pool:
  "pending_by_site (snd (site_step tz now s p acc)) =
     (if step_pool now (snd acc) s p = []
      then od_pop s (if fires now (snd acc) s p
                     then od_update s (step_pool now (snd acc) s p) (pending_by_site (snd acc))
                     else pending_by_site (snd acc))
      else (if fires now (snd acc) s p
            then od_update s (step_pool now (snd acc) s p) (pending_by_site (snd acc))
            else pending_by_site (snd acc)))"
  by (simp add: site_step_def Let_def fires_def active_of_def step_pool_def)

lemma step_pool_cong:
  assumes "window A' = window A" "min_count A' = min_count A"
    and "site_cooldown A' s = site_cooldown A s"
  shows "step_pool now A' s p = step_pool now A s p"
  unfolding step_pool_def
  by (simp add: fires_cong[OF assms] active_of_cong[OF assms(1)])

lemma new_pools_cong:
  assumes "window A' = window A" "min_count A' = min_count A"
    and "\<And>x. x \<in> set snap \<Longrightarrow> site_cooldown A' (fst x) = site_cooldown A (fst x)"
  shows "new_pools now A' snap = new_pools now A snap"
proof -
  have "step_pool now A' (fst x) (snd x) = step_pool now A (fst x) (snd x)" if "x \<in> set snap" for x
    by (intro step_pool_cong assms that)
  then have "filter (\<lambda>sp. step_pool now A' (fst sp) (snd sp) \<noteq> []) snap =
             filter (\<lambda>sp. step_pool now A (fst sp) (snd sp) \<noteq> []) snap"
    and "\<And>x. x \<in> set (filter (\<lambda>sp. step_pool now A (fst sp) (snd sp) \<noteq> []) snap) \<Longrightarrow>
           (fst x, step_pool now A' (fst x) (snd x)) = (fst x, step_pool now A (fst x) (snd x))"
    by (auto intro: filter_cong)
  then show ?thesis unfolding new_pools_def by (simp cong: map_cong)
qed

lemma new_pools_Nil: "new_pools now A [] = []"
  by (simp add: new_pools_def)

lemma new_pools_Cons:
  "new_pools now A ((s, p) # snap) =
     (if step_pool now A s p = [] then [] else [(s, step_pool now A s p)]) @ new_pools now A snap"
  by (simp add: new_pools_def)

lemma process_sites_site_pool:
  "distinct (map fst (pre @ snap)) \<Longrightarrow> pending_by_site (snd acc) = pre @ snap \<Longrightarrow>
   pending_by_site (snd (process_sites tz now snap acc)) = pre @ new_pools now (snd acc) snap"
proof (induction snap arbitrary: acc pre)
  case Nil
  then show ?case by (simp add: new_pools_Nil)
next
  case (Cons sp snap)
  obtain s p where sp: "sp = (s, p)" by (cases sp)
  let ?acc' = "site_step tz now s p acc"
  let ?p' = "step_pool now (snd acc) s p"
  from Cons.prems(1) sp have nin: "s \<notin> fst ` set pre" "s \<notin> fst ` set snap"
    and dsnap: "distinct (map fst (sp # snap))"
    by auto
  have cfg: "window (snd ?acc') = window (snd acc)" "min_count (snd ?acc') = min_count (snd acc)"
    by (simp_all add: site_step_config)
  have cd: "site_cooldown (snd ?acc') (fst x) = site_cooldown (snd acc) (fst x)"
    if "x \<in> set snap" for x
    using distinct_fst_ConsD[OF dsnap that] sp by (simp add: site_step_cooldown)
  have np: "new_pools now (snd ?acc') snap = new_pools now (snd acc) snap"
    by (rule new_pools_cong) (simp_all add: cfg cd)
  have upd: "od_update s ?p' (pre @ (s, p) # snap) = pre @ (s, ?p') # snap"
    by (rule od_update_split[OF nin])
  have same: "\<not> fires now (snd acc) s p \<Longrightarrow> ?p' = p"
    by (simp add: step_pool_def)
  have S1: "(if fires now (snd acc) s p then od_update s ?p' (pending_by_site (snd acc))
             else pending_by_site (snd acc)) = pre @ (s, ?p') # snap"
  proof (cases "fires now (snd acc) s p")
    case True
    with Cons.prems(2) sp upd show ?thesis by simp
  next
    case False
    with Cons.prems(2) sp same show ?thesis by simp
  qed
  have S2: "pending_by_site (snd ?acc') =
      (if ?p' = [] then od_pop s (pre @ (s, ?p') # snap) else pre @ (s, ?p') # snap)"
    by (simp only: site_step_site_pool S1)
  show ?case
  proof (cases "?p' = []")
    case True
    with S2 have "pending_by_site (snd ?acc') = od_pop s (pre @ (s, ?p') # snap)"
      by simp
    then have "pending_by_site (snd ?acc') = pre @ snap"
      by (simp only: od_pop_split[OF nin])
    moreover from Cons.prems(1) have "distinct (map fst (pre @ snap))" by simp
    ultimately have "pending_by_site (snd (process_sites tz now snap ?acc')) =
        pre @ new_pools now (snd ?acc') snap"
      by (rule Cons.IH[rotated])
    with True sp show ?thesis by (simp add: np new_pools_Cons)
  next
    case False
    with S2 have "pending_by_site (snd ?acc') = pre @ (s, ?p') # snap"
      by simp
    then have "pending_by_site (snd ?acc') = (pre @ [(s, ?p')]) @ snap" by simp
    moreover from Cons.prems(1) sp have "distinct (map fst ((pre @ [(s, ?p')]) @ snap))" by auto
    ultimately have "pending_by_site (snd (process_sites tz now snap ?acc')) =
        (pre @ [(s, ?p')]) @ new_pools now (snd ?acc') snap"
      by (rule Cons.IH[rotated])
    with False sp show ?thesis by (simp add: np new_pools_Cons)
  qed
qed

lemma in_new_pools:
  "(s, p') \<in> set (new_pools now A snap) \<longleftrightarrow>
     (\<exists>p. (s, p) \<in> set snap \<and> p' \<noteq> [] \<and> p' = step_pool now A s p)"
  unfolding new_pools_def by force

lemma map_fst_new_pools:
  "map fst (new_pools now A snap) =
     map fst (filter (\<lambda>sp. step_pool now A (fst sp) (snd sp) \<noteq> []) snap)"
  by (simp add: new_pools_def comp_def)

lemma distinct_new_pools: "distinct (map fst snap) \<Longrightarrow> distinct (map fst (new_pools now A snap))"
  by (simp add: map_fst_new_pools distinct_map_filter)

lemma set_step_pool: "set (step_pool now A s p) \<subseteq> set p"
  using set_pop_all[of "active_of now A p" p] by (simp add: step_pool_def)

lemma pools_sub_new_pools: "pools_sub (new_pools now A snap) snap"
  unfolding pools_sub_def
proof
  fix sp' assume "sp' \<in> set (new_pools now A snap)"
  then have "(fst sp', snd sp') \<in> set (new_pools now A snap)" by simp
  then obtain p where p: "(fst sp', p) \<in> set snap" "snd sp' = step_pool now A (fst sp') p"
    unfolding in_new_pools by blast
  from p(2) set_step_pool[of now A "fst sp'" p] have "set (snd sp') \<subseteq> set p" by simp
  with p(1) show "\<exists>sp \<in> set snap. fst sp = fst sp' \<and> set (snd sp') \<subseteq> set (snd sp)"
    by (intro bexI[of _ "(fst sp', p)"]) simp_all
qed

text \<open>The second loop only removes entries.\<close>

lemma single_step_site_pool:
  "pending_by_site (snd (single_step now k c acc)) =
     (if aged now (snd acc) c then site_pool_pop (site_id c) k (pending_by_site (snd acc))
      else pending_by_site (snd acc))"
  by (simp add: single_step_def Let_def aged_def)

lemma process_singles_pools_sub:
  "pools_sub (pending_by_site (snd (process_singles now snap acc))) (pending_by_site (snd acc))"
proof (induction snap arbitrary: acc)
  case Nil
  then show ?case by (simp add: pools_sub_refl)
next
  case (Cons kc snap)
  have "pools_sub (pending_by_site (snd (single_step now (fst kc) (snd kc) acc)))
          (pending_by_site (snd acc))"
    by (simp add: single_step_site_pool pools_sub_site_pool_pop pools_sub_refl)
  from pools_sub_trans[OF Cons.IH[of "single_step now (fst kc) (snd kc) acc"] this]
  show ?case by simp
qed

lemma process_singles_distinct_sites:
  "distinct (map fst (pending_by_site (snd acc))) \<Longrightarrow>
   distinct (map fst (pending_by_site (snd (process_singles now snap acc))))"
proof (induction snap arbitrary: acc)
  case Nil
  then show ?case by simp
next
  case (Cons kc snap)
  have "distinct (map fst (pending_by_site (snd (single_step now (fst kc) (snd kc) acc))))"
    using Cons.prems by (simp add: single_step_site_pool distinct_site_pool_pop)
  from Cons.IH[OF this] show ?case by simp
qed

lemma process_singles_camera_pool_subset:
  "set (pending_by_camera (snd (process_singles now snap acc))) \<subseteq> set (pending_by_camera (snd acc))"
proof (induction snap arbitrary: acc)
  case Nil
  then show ?case by simp
next
  case (Cons kc snap)
  have "set (pending_by_camera (snd (single_step now (fst kc) (snd kc) acc)))
          \<subseteq> set (pending_by_camera (snd acc))"
    by (auto simp: single_step_camera_pool od_pop_def)
  with Cons.IH[of "single_step now (fst kc) (snd kc) acc"] show ?case by auto
qed

text \<open>A whole flush.\<close>

lemma process_sites_whole:
  assumes "distinct (map fst (pending_by_site A))"
  shows "pending_by_site (snd (process_sites tz now (pending_by_site A) ([], A))) =
           new_pools now A (pending_by_site A)"
  using process_sites_site_pool[of "[]" "pending_by_site A" "([], A)" tz now] assms by simp

lemma process_distinct_sites:
  assumes "distinct (map fst (pending_by_site A))"
  shows "distinct (map fst (pending_by_site (snd (process tz now A))))"
  unfolding process_def Let_def
  by (intro process_singles_distinct_sites)
     (simp add: process_sites_whole[OF assms] distinct_new_pools[OF assms])

lemma process_pools_sub:
  assumes "distinct (map fst (pending_by_site A))"
  shows "pools_sub (pending_by_site (snd (process tz now A))) (pending_by_site A)"
proof -
  let ?acc1 = "process_sites tz now (pending_by_site A) ([], A)"
  have "pools_sub (pending_by_site (snd (process tz now A))) (pending_by_site (snd ?acc1))"
    unfolding process_def Let_def by (rule process_singles_pools_sub)
  moreover have "pools_sub (pending_by_site (snd ?acc1)) (pending_by_site A)"
    by (simp add: process_sites_whole[OF assms] pools_sub_new_pools)
  ultimately show ?thesis by (rule pools_sub_trans)
qed

lemma process_camera_pool_subset:
  assumes "distinct (map fst (pending_by_site A))"
  shows "set (pending_by_camera (snd (process tz now A))) \<subseteq> set (pending_by_camera A)"
proof -
  let ?acc1 = "process_sites tz now (pending_by_site A) ([], A)"
  have "set (pending_by_camera (snd (process tz now A))) \<subseteq> set (pending_by_camera (snd ?acc1))"
    unfolding process_def Let_def by (rule process_singles_camera_pool_subset)
  also have "\<dots> \<subseteq> set (pending_by_camera A)"
    by (simp add: process_sites_camera_pool[OF assms])
  finally show ?thesis .
qed

lemma process_cooldown:
  assumes "distinct (map fst (pending_by_site A))"
  shows "site_cooldown (snd (process tz now A)) s =
     (if \<exists>p. (s, p) \<in> set (pending_by_site A) \<and> fires now A s p
      then Some (now + suppress A) else site_cooldown A s)"
proof -
  have "site_cooldown (snd (process tz now A)) s =
        site_cooldown (snd (process_sites tz now (pending_by_site A) ([], A))) s"
    unfolding process_def Let_def by (simp add: process_singles_config)
  with process_sites_cooldown[OF assms, of tz now "([], A)" s] show ?thesis
    by (simp only: snd_conv)
qed

lemma process_config:
  "window (snd (process tz now A)) = window A"
  "min_count (snd (process tz now A)) = min_count A"
  "suppress (snd (process tz now A)) = suppress A"
  "washdown_schedule (snd (process tz now A)) = washdown_schedule A"
  unfolding process_def Let_def
  by (simp_all add: process_singles_config process_sites_config)

lemma enqueue_config:
  "window (enqueue c A) = window A" "min_count (enqueue c A) = min_count A"
  "suppress (enqueue c A) = suppress A" "washdown_schedule (enqueue c A) = washdown_schedule A"
  "site_cooldown (enqueue c A) = site_cooldown A"
  by (simp_all add: enqueue_def Let_def)

lemma cancel_config:
  "window (cancel k A) = window A" "min_count (cancel k A) = min_count A"
  "suppress (cancel k A) = suppress A" "washdown_schedule (cancel k A) = washdown_schedule A"
  "site_cooldown (cancel k A) = site_cooldown A"
  by (simp_all add: cancel_def split: option.split)

lemma enqueue_distinct_sites:
  "distinct (map fst (pending_by_site A)) \<Longrightarrow> distinct (map fst (pending_by_site (enqueue c A)))"
  by (simp add: enqueue_def Let_def distinct_od_set)

lemma cancel_distinct_sites:
  "distinct (map fst (pending_by_site A)) \<Longrightarrow> distinct (map fst (pending_by_site (cancel k A)))"
  by (simp add: cancel_def distinct_site_pool_pop split: option.split)

lemma apply_op_distinct_sites:
  "distinct (map fst (pending_by_site A)) \<Longrightarrow>
   distinct (map fst (pending_by_site (apply_op tz A op)))"
  by (cases op) (simp_all add: enqueue_distinct_sites cancel_distinct_sites process_distinct_sites)

lemma apply_op_config:
  "window (apply_op tz A op) = window A" "min_count (apply_op tz A op) = min_count A"
  "suppress (apply_op tz A op) = suppress A"
  by (cases op, simp_all add: enqueue_config cancel_config process_config)+

subsection \<open>Sequences of operations\<close>

lemma pools_sub_entries:
  assumes "pools_sub S' S" "\<forall>sp \<in> set S. \<forall>kc \<in> set (snd sp). P kc"
  shows "\<forall>sp' \<in> set S'. \<forall>kc \<in> set (snd sp'). P kc"
proof (intro ballI)
  fix sp' kc assume "sp' \<in> set S'" "kc \<in> set (snd sp')"
  with assms(1) obtain sp where "sp \<in> set S" "kc \<in> set (snd sp)"
    unfolding pools_sub_def by blast
  with assms(2) show "P kc" by blast
qed

lemma cancel_camera_pool_subset: "set (pending_by_camera (cancel k A)) \<subseteq> set (pending_by_camera A)"
  by (auto simp: cancel_def od_pop_def split: option.split)

lemma cancel_pools_sub: "pools_sub (pending_by_site (cancel k A)) (pending_by_site A)"
  by (simp add: cancel_def pools_sub_refl pools_sub_site_pool_pop split: option.split)

lemma enqueue_camera_pool:
  "set (pending_by_camera (enqueue c A)) \<subseteq> insert (camera_id c, c) (set (pending_by_camera A))"
  by (simp add: enqueue_def Let_def set_od_set)

lemma enqueue_site_pool:
  assumes "sp' \<in> set (pending_by_site (enqueue c A))"
  shows "sp' \<in> set (pending_by_site A) \<or>
         (\<exists>p. set (snd sp') \<subseteq> insert (camera_id c, c) (set p) \<and>
              (p = [] \<or> (site_id c, p) \<in> set (pending_by_site A)))"
proof (cases "map_of (pending_by_site A) (site_id c)")
  case None
  with assms set_od_set[of "site_id c" "od_set (camera_id c) c []" "pending_by_site A"]
  have "sp' \<in> set (pending_by_site A) \<or> sp' = (site_id c, [(camera_id c, c)])"
    by (auto simp: enqueue_def)
  then show ?thesis by auto
next
  case (Some p)
  then have p: "(site_id c, p) \<in> set (pending_by_site A)" by (rule map_of_SomeD)
  from Some assms set_od_set[of "site_id c" "od_set (camera_id c) c p" "pending_by_site A"]
  have "sp' \<in> set (pending_by_site A) \<or> sp' = (site_id c, od_set (camera_id c) c p)"
    by (auto simp: enqueue_def)
  then show ?thesis
  proof
    assume "sp' \<in> set (pending_by_site A)"
    then show ?thesis ..
  next
    assume "sp' = (site_id c, od_set (camera_id c) c p)"
    with set_od_set[of "camera_id c" c p] p show ?thesis by auto
  qed
qed

lemma consistent_keyed: "pools_consistent A \<Longrightarrow> pools_keyed A"
  unfolding pools_consistent_def pools_keyed_def by blast

lemma pools_keyedD:
  assumes "pools_keyed A"
  shows "distinct (map fst (pending_by_site A))"
    and "(k, c) \<in> set (pending_by_camera A) \<Longrightarrow> camera_id c = k"
    and "(s, p) \<in> set (pending_by_site A) \<Longrightarrow> (k, c) \<in> set p \<Longrightarrow> camera_id c = k"
  using assms unfolding pools_keyed_def by force+

lemma pools_keyed_shrink:
  assumes "pools_keyed A" "distinct (map fst (pending_by_site A'))"
    and "set (pending_by_camera A') \<subseteq> set (pending_by_camera A)"
    and "pools_sub (pending_by_site A') (pending_by_site A)"
  shows "pools_keyed A'"
proof -
  from assms(1) have "\<forall>sp \<in> set (pending_by_site A). \<forall>kc \<in> set (snd sp). camera_id (snd kc) = fst kc"
    unfolding pools_keyed_def by blast
  from pools_sub_entries[OF assms(4) this] assms(1,2,3) show ?thesis
    unfolding pools_keyed_def by blast
qed

lemma camera_absent_shrink:
  assumes "camera_absent k A"
    and "set (pending_by_camera A') \<subseteq> set (pending_by_camera A)"
    and "pools_sub (pending_by_site A') (pending_by_site A)"
  shows "camera_absent k A'"
proof -
  from assms(1) have "\<forall>sp \<in> set (pending_by_site A). \<forall>kc \<in> set (snd sp). fst kc \<noteq> k"
    unfolding camera_absent_def by force
  from pools_sub_entries[OF assms(3) this]
  have "\<forall>sp \<in> set (pending_by_site A'). k \<notin> fst ` set (snd sp)" by force
  moreover from assms(1,2) have "k \<notin> fst ` set (pending_by_camera A')"
    unfolding camera_absent_def by force
  ultimately show ?thesis unfolding camera_absent_def by simp
qed

lemma enqueue_keyed:
  assumes "pools_keyed A"
  shows "pools_keyed (enqueue c A)"
  unfolding pools_keyed_def
proof (intro conjI ballI)
  show "distinct (map fst (pending_by_site (enqueue c A)))"
    by (rule enqueue_distinct_sites[OF pools_keyedD(1)[OF assms]])
next
  fix kc assume "kc \<in> set (pending_by_camera (enqueue c A))"
  with enqueue_camera_pool[of c A] have "kc = (camera_id c, c) \<or> kc \<in> set (pending_by_camera A)"
    by auto
  with pools_keyedD(2)[OF assms, of "fst kc" "snd kc"] show "camera_id (snd kc) = fst kc" by auto
next
  fix sp kc assume sp: "sp \<in> set (pending_by_site (enqueue c A))" and kc: "kc \<in> set (snd sp)"
  from enqueue_site_pool[OF sp] show "camera_id (snd kc) = fst kc"
  proof
    assume "sp \<in> set (pending_by_site A)"
    then have "(fst sp, snd sp) \<in> set (pending_by_site A)" by simp
    from pools_keyedD(3)[OF assms this, of "fst kc" "snd kc"] kc show ?thesis by simp
  next
    assume "\<exists>p. set (snd sp) \<subseteq> insert (camera_id c, c) (set p) \<and>
              (p = [] \<or> (site_id c, p) \<in> set (pending_by_site A))"
    then obtain p where p: "set (snd sp) \<subseteq> insert (camera_id c, c) (set p)"
      "p = [] \<or> (site_id c, p) \<in> set (pending_by_site A)" by blast
    from p(1) kc have "kc = (camera_id c, c) \<or> kc \<in> set p" by auto
    then show ?thesis
    proof
      assume "kc = (camera_id c, c)" then show ?thesis by simp
    next
      assume m: "kc \<in> set p"
      with p(2) have "(site_id c, p) \<in> set (pending_by_site A)" by auto
      from pools_keyedD(3)[OF assms this, of "fst kc" "snd kc"] m show ?thesis by simp
    qed
  qed
qed

lemma enqueue_absent:
  assumes "camera_absent k A" "camera_id c \<noteq> k"
  shows "camera_absent k (enqueue c A)"
  unfolding camera_absent_def
proof (intro conjI ballI)
  from enqueue_camera_pool[of c A] assms show "k \<notin> fst ` set (pending_by_camera (enqueue c A))"
    unfolding camera_absent_def by force
next
  fix sp assume sp: "sp \<in> set (pending_by_site (enqueue c A))"
  from enqueue_site_pool[OF sp] show "k \<notin> fst ` set (snd sp)"
  proof
    assume "sp \<in> set (pending_by_site A)"
    with assms(1) show ?thesis unfolding camera_absent_def by blast
  next
    assume "\<exists>p. set (snd sp) \<subseteq> insert (camera_id c, c) (set p) \<and>
              (p = [] \<or> (site_id c, p) \<in> set (pending_by_site A))"
    then obtain p where p: "set (snd sp) \<subseteq> insert (camera_id c, c) (set p)"
      "p = [] \<or> (site_id c, p) \<in> set (pending_by_site A)" by blast
    from p(2) assms(1) have "k \<notin> fst ` set p" unfolding camera_absent_def by force
    with p(1) assms(2) show ?thesis by force
  qed
qed

lemma apply_op_keyed: "pools_keyed A \<Longrightarrow> pools_keyed (apply_op tz A op)"
proof (cases op)
  case (Enqueue c)
  assume "pools_keyed A"
  with Enqueue show ?thesis by (simp add: enqueue_keyed)
next
  case (Cancel k)
  assume a: "pools_keyed A"
  from pools_keyed_shrink[OF a cancel_distinct_sites[OF pools_keyedD(1)[OF a]]
      cancel_camera_pool_subset cancel_pools_sub] Cancel
  show ?thesis by simp
next
  case (Flush t)
  assume a: "pools_keyed A"
  note d = pools_keyedD(1)[OF a]
  from pools_keyed_shrink[OF a process_distinct_sites[OF d]
      process_camera_pool_subset[OF d] process_pools_sub[OF d]] Flush
  show ?thesis by simp
qed

lemma apply_op_absent:
  assumes "pools_keyed A" "camera_absent k A" "\<forall>c. op = Enqueue c \<longrightarrow> camera_id c \<noteq> k"
  shows "camera_absent k (apply_op tz A op)"
proof (cases op)
  case (Enqueue c)
  with assms show ?thesis by (simp add: enqueue_absent)
next
  case (Cancel k')
  from camera_absent_shrink[OF assms(2) cancel_camera_pool_subset cancel_pools_sub] Cancel
  show ?thesis by simp
next
  case (Flush t)
  note d = pools_keyedD(1)[OF assms(1)]
  from camera_absent_shrink[OF assms(2) process_camera_pool_subset[OF d] process_pools_sub[OF d]]
    Flush
  show ?thesis by simp
qed

lemma run_ops_keyed_absent:
  assumes "pools_keyed A" "camera_absent k A" "\<forall>c. Enqueue c \<in> set ops \<longrightarrow> camera_id c \<noteq> k"
  shows "pools_keyed (run_ops tz ops A) \<and> camera_absent k (run_ops tz ops A)"
  using assms
proof (induction ops arbitrary: A)
  case Nil
  then show ?case by (simp add: run_ops_def)
next
  case (Cons op ops)
  have 1: "pools_keyed (apply_op tz A op)" by (rule apply_op_keyed[OF Cons.prems(1)])
  have 2: "camera_absent k (apply_op tz A op)"
    by (rule apply_op_absent[OF Cons.prems(1,2)]) (use Cons.prems(3) in auto)
  from Cons.prems(3) have 3: "\<forall>c. Enqueue c \<in> set ops \<longrightarrow> camera_id c \<noteq> k" by simp
  from Cons.IH[OF 1 2 3] show ?case by (simp add: run_ops_def)
qed

lemma process_no_reference:
  assumes "pools_keyed A" "camera_absent k A" "a \<in> set (fst (process tz now A))"
  shows "k \<notin> camera_id ` set (candidates a)"
proof -
  note d = pools_keyedD(1)[OF assms(1)]
  from assms(3) consider
    (agg) sp where "sp \<in> set (pending_by_site A)" "a = agg_action tz now A (fst sp) (snd sp)"
    | (single) k' c where "(k', c) \<in> set (pending_by_camera A)" "a = single_action c"
    unfolding set_process[OF d] by auto
  then show ?thesis
  proof cases
    case agg
    show ?thesis
    proof
      assume "k \<in> camera_id ` set (candidates a)"
      with agg(2) obtain k' c where c: "(k', c) \<in> set (snd sp)" "camera_id c = k"
        by (auto simp: in_active_of)
      from agg(1) have sp: "(fst sp, snd sp) \<in> set (pending_by_site A)" by simp
      from pools_keyedD(3)[OF assms(1) sp c(1)] c(2) have "k' = k" by simp
      with c(1) have "k \<in> fst ` set (snd sp)" by force
      with assms(2) agg(1) show False unfolding camera_absent_def by blast
    qed
  next
    case single
    from pools_keyedD(2)[OF assms(1) single(1)] have "camera_id c = k'" .
    moreover from single(1) assms(2) have "k' \<noteq> k" unfolding camera_absent_def by force
    ultimately show ?thesis using single(2) by simp
  qed
qed

text \<open>Cancelling.\<close>

lemma cancel_not_pending: "map_of (pending_by_camera A) cam = None \<Longrightarrow> cancel cam A = A"
  by (simp add: cancel_def)

lemma consistent_not_in_other_pool:
  assumes "pools_consistent A" "map_of (pending_by_camera A) cam = Some c"
    and "(s, p) \<in> set (pending_by_site A)" "cam \<in> fst ` set p"
  shows "s = site_id c"
proof -
  from assms(4) obtain c' where c': "(cam, c') \<in> set p" by auto
  from consistentD_site(2,3)[OF assms(1,3) c'] assms(2) show ?thesis by simp
qed

lemma consistent_not_pending_absent:
  assumes "pools_consistent A" "map_of (pending_by_camera A) cam = None"
  shows "camera_absent cam A"
  unfolding camera_absent_def
proof (intro conjI ballI)
  from assms(2) show "cam \<notin> fst ` set (pending_by_camera A)" by (simp add: map_of_eq_None_iff)
next
  fix sp assume sp: "sp \<in> set (pending_by_site A)"
  show "cam \<notin> fst ` set (snd sp)"
  proof
    assume "cam \<in> fst ` set (snd sp)"
    then obtain c' where c': "(cam, c') \<in> set (snd sp)" by auto
    from sp have "(fst sp, snd sp) \<in> set (pending_by_site A)" by simp
    from consistentD_site(3)[OF assms(1) this c'] assms(2) show False by simp
  qed
qed

lemma cancel_site_pools:
  assumes "pools_consistent A" "map_of (pending_by_camera A) cam = Some c"
  shows "map_of (pending_by_site (cancel cam A)) s =
     (case map_of (pending_by_site A) s of None \<Rightarrow> None
      | Some p \<Rightarrow> if od_pop cam p = [] then None else Some (od_pop cam p))"
proof (cases "s = site_id c")
  case True
  with assms(2) show ?thesis by (simp add: cancel_def map_of_site_pool_pop)
next
  case False
  have "map_of (pending_by_site (cancel cam A)) s = map_of (pending_by_site A) s"
    using assms(2) False by (simp add: cancel_def map_of_site_pool_pop)
  moreover have "od_pop cam p = p \<and> p \<noteq> []" if "map_of (pending_by_site A) s = Some p" for p
  proof -
    from that have sp: "(s, p) \<in> set (pending_by_site A)" by (rule map_of_SomeD)
    with consistent_not_in_other_pool[OF assms sp] False have "cam \<notin> fst ` set p" by blast
    then have "od_pop cam p = p" by (rule od_pop_absent)
    moreover from assms(1) sp have "p \<noteq> []" unfolding pools_consistent_def by force
    ultimately show ?thesis by simp
  qed
  ultimately show ?thesis by (auto split: option.split)
qed

lemma cancel_absent:
  assumes "pools_consistent A"
  shows "camera_absent cam (cancel cam A)"
proof (cases "map_of (pending_by_camera A) cam")
  case None
  with consistent_not_pending_absent[OF assms None] show ?thesis by (simp add: cancel_not_pending)
next
  case (Some c)
  show ?thesis unfolding camera_absent_def
  proof (intro conjI ballI)
    from Some show "cam \<notin> fst ` set (pending_by_camera (cancel cam A))"
      by (auto simp: cancel_def od_pop_def)
  next
    fix sp assume sp: "sp \<in> set (pending_by_site (cancel cam A))"
    have d: "distinct (map fst (pending_by_site (cancel cam A)))"
      by (rule cancel_distinct_sites[OF consistentD_distinct(2)[OF assms]])
    from sp have "(fst sp, snd sp) \<in> set (pending_by_site (cancel cam A))" by simp
    with d have "map_of (pending_by_site (cancel cam A)) (fst sp) = Some (snd sp)" by simp
    then have "\<exists>p. od_pop cam p = snd sp"
      unfolding cancel_site_pools[OF assms Some]
      by (cases "map_of (pending_by_site A) (fst sp)") (auto split: if_splits)
    then obtain p where p: "od_pop cam p = snd sp" ..
    have "cam \<notin> fst ` set (od_pop cam p)" by (auto simp: od_pop_def)
    with p show "cam \<notin> fst ` set (snd sp)" by simp
  qed
qed

lemma cancel_enqueue:
  assumes con: "pools_consistent A" and np: "map_of (pending_by_camera A) (camera_id c) = None"
  shows "cancel (camera_id c) (enqueue c A) = A"
proof -
  let ?k = "camera_id c" and ?s = "site_id c"
  let ?G = "pending_by_camera A" and ?S = "pending_by_site A"
  from np have kG: "?k \<notin> fst ` set ?G" by (simp add: map_of_eq_None_iff)
  have G1: "pending_by_camera (enqueue c A) = ?G @ [(?k, c)]"
    by (simp add: enqueue_def Let_def od_set_absent[OF kG])
  then have look: "map_of (pending_by_camera (enqueue c A)) ?k = Some c"
    using kG by (simp add: map_of_eq_None_iff[symmetric] map_add_def split: option.split)
  have pop: "od_pop ?k (pending_by_camera (enqueue c A)) = ?G"
    using od_pop_absent[OF kG] by (simp add: G1) (simp add: od_pop_def)
  have sites: "site_pool_pop ?s ?k (pending_by_site (enqueue c A)) = ?S"
  proof (cases "map_of ?S ?s")
    case None
    then have sS: "?s \<notin> fst ` set ?S" by (simp add: map_of_eq_None_iff)
    have S1: "pending_by_site (enqueue c A) = ?S @ [(?s, [(?k, c)])]"
      using None by (simp add: enqueue_def od_set_absent[OF sS])
    have "map_of (pending_by_site (enqueue c A)) ?s = Some [(?k, c)]"
      using None by (simp add: enqueue_def map_of_od_set)
    moreover have "od_pop ?s (?S @ [(?s, [(?k, c)])]) = ?S"
      using od_pop_absent[OF sS] by (simp add: od_pop_def)
    ultimately show ?thesis by (simp add: site_pool_pop_def S1 od_pop_def)
  next
    case (Some p)
    then have sp: "(?s, p) \<in> set ?S" by (rule map_of_SomeD)
    have kp: "?k \<notin> fst ` set p"
    proof
      assume "?k \<in> fst ` set p"
      then obtain c' where "(?k, c') \<in> set p" by auto
      from consistentD_site(3)[OF con sp this] np show False by simp
    qed
    from con sp have pne: "p \<noteq> []" unfolding pools_consistent_def by force
    have S1: "pending_by_site (enqueue c A) = od_set ?s (p @ [(?k, c)]) ?S"
      using Some by (simp add: enqueue_def od_set_absent[OF kp])
    have "map_of (od_set ?s (p @ [(?k, c)]) ?S) ?s = Some (p @ [(?k, c)])"
      by (simp add: map_of_od_set)
    moreover have "od_pop ?k (p @ [(?k, c)]) = p"
      using od_pop_absent[OF kp] by (simp add: od_pop_def)
    moreover have "od_update ?s p (od_set ?s (p @ [(?k, c)]) ?S) = ?S"
      by (rule od_update_od_set[OF consistentD_distinct(2)[OF con] Some])
    ultimately show ?thesis using pne by (simp add: site_pool_pop_def S1)
  qed
  have "cancel ?k (enqueue c A) =
          (enqueue c A)\<lparr> pending_by_camera := ?G, pending_by_site := ?S \<rparr>"
    using look pop sites by (simp add: cancel_def)
  also have "\<dots> = A" by (simp add: enqueue_def Let_def)
  finally show ?thesis .
qed

text \<open>A site's cooldown only moves forward.\<close>

lemma apply_op_cooldown:
  assumes d: "distinct (map fst (pending_by_site A))" and sup: "0 < suppress A"
    and cd: "site_cooldown A s = Some cd" "D \<le> cd"
  shows "\<exists>cd'. site_cooldown (apply_op tz A op) s = Some cd' \<and> D \<le> cd'"
proof (cases op)
  case (Enqueue c)
  with cd show ?thesis by (simp add: enqueue_config)
next
  case (Cancel k)
  with cd show ?thesis by (simp add: cancel_config)
next
  case (Flush t)
  show ?thesis
  proof (cases "\<exists>p. (s, p) \<in> set (pending_by_site A) \<and> fires t A s p")
    case True
    then have "cd \<le> t" using cd(1) by (auto simp: fires_def)
    with cd(2) sup have "D \<le> t + suppress A" by simp
    with True Flush process_cooldown[OF d, of tz t s] show ?thesis by simp
  next
    case False
    with Flush process_cooldown[OF d, of tz t s] cd show ?thesis by simp
  qed
qed

lemma run_ops_cooldown:
  assumes "distinct (map fst (pending_by_site A))" "0 < suppress A"
    and "site_cooldown A s = Some cd" "D \<le> cd"
  shows "distinct (map fst (pending_by_site (run_ops tz ops A))) \<and>
         (\<exists>cd'. site_cooldown (run_ops tz ops A) s = Some cd' \<and> D \<le> cd')"
  using assms
proof (induction ops arbitrary: A cd)
  case Nil
  then show ?case by (simp add: run_ops_def)
next
  case (Cons op ops)
  from apply_op_cooldown[OF Cons.prems, of tz op]
  obtain cd' where cd': "site_cooldown (apply_op tz A op) s = Some cd'" "D \<le> cd'" by blast
  have sup: "0 < suppress (apply_op tz A op)" using Cons.prems(2) by (simp add: apply_op_config)
  from Cons.IH[OF apply_op_distinct_sites[OF Cons.prems(1)] sup cd'] show ?case
    by (simp add: run_ops_def)
qed

lemma process_no_aggregate_in_cooldown:
  assumes d: "distinct (map fst (pending_by_site A))"
    and cd: "site_cooldown A s = Some cd" "t < cd"
    and a: "a \<in> set (fst (process tz t A))" "kind a = ''aggregate''"
  shows "action_site_id a \<noteq> s"
proof
  assume s: "action_site_id a = s"
  from a obtain sp where sp: "fires t A (fst sp) (snd sp)"
    "a = agg_action tz t A (fst sp) (snd sp)"
    unfolding set_process[OF d] by auto
  with s have "fires t A s (snd sp)" by simp
  with cd show False by (simp add: fires_def)
qed

subsection \<open>The response to an alert\<close>

lemma after_alert_camera_const:
  "aggregator (after_alert_camera now d E k) = aggregator E"
  "engine_suppress (after_alert_camera now d E k) = engine_suppress E"
  "threshold (after_alert_camera now d E k) = threshold E"
  "line_lookup (after_alert_camera now d E k) = line_lookup E"
  "site_lookup (after_alert_camera now d E k) = site_lookup E"
  by (simp_all add: after_alert_camera_def split: option.split)

lemma after_alert_camera_state:
  "state (after_alert_camera now d E k) k' =
     (if k' = k then map_option (respond_state now d (engine_suppress E)) (state E k)
      else state E k')"
  by (simp add: after_alert_camera_def respond_state_def split: option.split)

lemma after_alert_Nil: "after_alert now [] d E = E"
  by (simp add: after_alert_def)

lemma after_alert_Cons:
  "after_alert now (k # ks) d E = after_alert now ks d (after_alert_camera now d E k)"
  by (simp add: after_alert_def)

lemma after_alert_append:
  "after_alert now (ks @ ks') d E = after_alert now ks' d (after_alert now ks d E)"
  by (simp add: after_alert_def)

lemma after_alert_const:
  "aggregator (after_alert now ks d E) = aggregator E"
  "engine_suppress (after_alert now ks d E) = engine_suppress E"
  "threshold (after_alert now ks d E) = threshold E"
  "line_lookup (after_alert now ks d E) = line_lookup E"
  "site_lookup (after_alert now ks d E) = site_lookup E"
  by (induction ks arbitrary: E) (simp_all add: after_alert_Nil after_alert_Cons after_alert_camera_const)

lemma respond_state_idem:
  "respond_state now d delay (respond_state now d delay st) = respond_state now d delay st"
  by (simp add: respond_state_def)

lemma after_alert_state:
  "state (after_alert now ks d E) k =
     (if k \<in> set ks then map_option (respond_state now d (engine_suppress E)) (state E k)
      else state E k)"
proof (induction ks arbitrary: E)
  case Nil
  then show ?case by (simp add: after_alert_Nil)
next
  case (Cons k' ks)
  let ?E' = "after_alert_camera now d E k'"
  have "state (after_alert now (k' # ks) d E) k =
      (if k \<in> set ks then map_option (respond_state now d (engine_suppress E)) (state ?E' k)
       else state ?E' k)"
    using Cons.IH[of ?E'] by (simp add: after_alert_Cons after_alert_camera_const)
  also have "\<dots> = (if k \<in> set (k' # ks)
        then map_option (respond_state now d (engine_suppress E)) (state E k) else state E k)"
  proof (cases "k = k'")
    case True
    then show ?thesis
      by (cases "state E k'") (simp_all add: after_alert_camera_state respond_state_idem)
  next
    case False
    then show ?thesis by (simp add: after_alert_camera_state)
  qed
  finally show ?case .
qed

lemma after_alert_camera_episodes:
  "\<exists>new. episode_store (after_alert_camera now d E k) = episode_store E @ new"
  by (simp add: after_alert_camera_def split: option.split)

lemma after_alert_episodes:
  "\<exists>new. episode_store (after_alert now ks d E) = episode_store E @ new"
proof (induction ks arbitrary: E)
  case Nil
  then show ?case by (simp add: after_alert_Nil)
next
  case (Cons k ks)
  from after_alert_camera_episodes[of now d E k]
  obtain n1 where n1: "episode_store (after_alert_camera now d E k) = episode_store E @ n1" ..
  from Cons.IH[of "after_alert_camera now d E k"]
  obtain n2 where "episode_store (after_alert now ks d (after_alert_camera now d E k)) =
      episode_store (after_alert_camera now d E k) @ n2" ..
  with n1 have "episode_store (after_alert now (k # ks) d E) = episode_store E @ (n1 @ n2)"
    by (simp add: after_alert_Cons)
  then show ?case ..
qed

lemma after_alert_ignore_same:
  assumes "d \<noteq> ''clean''"
  shows "episode_store (after_alert now ks d E) = episode_store E"
    and "simulator (after_alert now ks d E) = simulator E"
proof -
  have "episode_store (after_alert now ks d E) = episode_store E \<and>
        simulator (after_alert now ks d E) = simulator E"
  proof (induction ks arbitrary: E)
    case Nil
    then show ?case by (simp add: after_alert_Nil)
  next
    case (Cons k ks)
    have "episode_store (after_alert_camera now d E k) = episode_store E"
      "simulator (after_alert_camera now d E k) = simulator E"
      using assms by (simp_all add: after_alert_camera_def split: option.split)
    with Cons.IH[of "after_alert_camera now d E k"] show ?case by (simp add: after_alert_Cons)
  qed
  then show "episode_store (after_alert now ks d E) = episode_store E"
    and "simulator (after_alert now ks d E) = simulator E" by simp_all
qed

text \<open>Once a camera's flag is not set in the simulator, no response sets it.\<close>

lemma after_alert_camera_flag_clear:
  "flag_clear cam E \<Longrightarrow> flag_clear cam (after_alert_camera now d E k)"
  by (auto simp: flag_clear_def after_alert_camera_def set_blurry_def split: option.splits)

lemma after_alert_flag_clear: "flag_clear cam E \<Longrightarrow> flag_clear cam (after_alert now ks d E)"
  by (induction ks arbitrary: E)
     (simp_all add: after_alert_Nil after_alert_Cons after_alert_camera_flag_clear)

lemma after_alert_camera_clean_flag:
  "state E cam = Some st \<Longrightarrow> flag_clear cam (after_alert_camera now ''clean'' E cam)"
  by (auto simp: flag_clear_def after_alert_camera_def set_blurry_def split: option.splits)

lemma after_alert_simulator_None:
  "(simulator (after_alert now ks d E) = None) = (simulator E = None)"
proof (induction ks arbitrary: E)
  case Nil
  then show ?case by (simp add: after_alert_Nil)
next
  case (Cons k ks)
  have "(simulator (after_alert_camera now d E k) = None) = (simulator E = None)"
    by (simp add: after_alert_camera_def split: option.split)
  with Cons.IH[of "after_alert_camera now d E k"] show ?case by (simp add: after_alert_Cons)
qed

lemma after_alert_clean:
  assumes mem: "cam \<in> set ks" and st: "state E cam = Some st"
  shows "flag_clear cam (after_alert now ks ''clean'' E)"
    and "blur_start st = Some since \<Longrightarrow>
           \<exists>new. episode_store (after_alert now ks ''clean'' E) = episode_store E @ new \<and>
                 (cam, since, now) \<in> set new"
proof -
  from split_list_first[OF mem] obtain pre post where ks: "ks = pre @ cam # post" "cam \<notin> set pre"
    by blast
  let ?E1 = "after_alert now pre ''clean'' E"
  let ?E2 = "after_alert_camera now ''clean'' ?E1 cam"
  have E': "after_alert now ks ''clean'' E = after_alert now post ''clean'' ?E2"
    by (simp add: ks after_alert_append after_alert_Cons)
  have st1: "state ?E1 cam = Some st" using ks(2) st by (simp add: after_alert_state)
  from after_alert_flag_clear[OF after_alert_camera_clean_flag[OF st1]] E'
  show "flag_clear cam (after_alert now ks ''clean'' E)" by simp
  assume since: "blur_start st = Some since"
  from after_alert_episodes[of now pre "''clean''" E]
  obtain n1 where n1: "episode_store ?E1 = episode_store E @ n1" ..
  have n2: "episode_store ?E2 = episode_store ?E1 @ [(cam, since, now)]"
    using st1 since by (simp add: after_alert_camera_def)
  from after_alert_episodes[of now post "''clean''" ?E2]
  obtain n3 where n3: "episode_store (after_alert now post ''clean'' ?E2) = episode_store ?E2 @ n3" ..
  from n1 n2 n3 E' have "episode_store (after_alert now ks ''clean'' E) =
      episode_store E @ (n1 @ [(cam, since, now)] @ n3) \<and>
      (cam, since, now) \<in> set (n1 @ [(cam, since, now)] @ n3)"
    by simp
  then show "\<exists>new. episode_store (after_alert now ks ''clean'' E) = episode_store E @ new \<and>
                 (cam, since, now) \<in> set new" ..
qed

subsection \<open>Observations\<close>

lemma enqueue_other_camera:
  "k \<noteq> camera_id c \<Longrightarrow> map_of (pending_by_camera (enqueue c A)) k = map_of (pending_by_camera A) k"
  by (simp add: enqueue_def Let_def map_of_od_set)

lemma cancel_other_camera:
  "k \<noteq> cam \<Longrightarrow> map_of (pending_by_camera (cancel cam A)) k = map_of (pending_by_camera A) k"
  by (simp add: cancel_def map_of_od_pop split: option.split)

lemma process_clear:
  "AlertEngine_process t cam False E =
     (let st = state_or_init E cam;
          st1 = (if pending_candidate st then st\<lparr> pending_candidate := False \<rparr> else st)
      in E\<lparr> aggregator := (if pending_candidate st then cancel cam (aggregator E) else aggregator E),
            state := (state E)(cam \<mapsto>
               (if is_blurry st1
                then st1\<lparr> is_blurry := False, blur_start := None,
                         alert_open := False, last_alert_until := None \<rparr>
                else st1)) \<rparr>)"
  unfolding AlertEngine_process_def state_or_init_def Let_def by simp

lemma process_blurry:
  "AlertEngine_process t cam True E =
     (let st = state_or_init E cam;
          st1 = (if \<not> is_blurry st then st\<lparr> is_blurry := True, blur_start := Some t \<rparr> else st)
      in case blur_start st1 of
           None \<Rightarrow> E\<lparr> state := (state E)(cam \<mapsto> st1) \<rparr>
         | Some since \<Rightarrow>
             if \<not> (alert_open st1 \<and> (case last_alert_until st1 of None \<Rightarrow> False | Some u \<Rightarrow> t < u))
                \<and> \<not> pending_candidate st1 \<and> t - since \<ge> threshold E
             then E\<lparr> aggregator := enqueue (mk_candidate E cam since t) (aggregator E),
                     state := (state E)(cam \<mapsto> st1\<lparr> pending_candidate := True \<rparr>) \<rparr>
             else E\<lparr> state := (state E)(cam \<mapsto> st1) \<rparr>)"
  unfolding AlertEngine_process_def state_or_init_def mk_candidate_def Let_def by simp

lemma process_clear_result:
  fixes E t cam
  defines "st0 \<equiv> state_or_init E cam" and "E' \<equiv> AlertEngine_process t cam False E"
  shows "\<exists>st'. state E' cam = Some st' \<and> \<not> pending_candidate st' \<and> \<not> is_blurry st' \<and>
           alert_open st' = (alert_open st0 \<and> \<not> is_blurry st0) \<and>
           last_alert_until st' = (if is_blurry st0 then None else last_alert_until st0)"
    and "aggregator E' = (if pending_candidate st0 then cancel cam (aggregator E) else aggregator E)"
    and "k \<noteq> cam \<Longrightarrow> state E' k = state E k"
  unfolding E'_def st0_def process_clear Let_def by simp_all

lemma process_blurry_result:
  fixes E t cam
  defines "st0 \<equiv> state_or_init E cam" and "E' \<equiv> AlertEngine_process t cam True E"
  shows "\<exists>st'. state E' cam = Some st' \<and> alert_open st' = alert_open st0 \<and>
           last_alert_until st' = last_alert_until st0 \<and> is_blurry st' \<and>
           blur_start st' = (if is_blurry st0 then blur_start st0 else Some t) \<and>
           ((pending_candidate st' = pending_candidate st0 \<and> aggregator E' = aggregator E) \<or>
            (pending_candidate st' \<and> \<not> pending_candidate st0 \<and>
             \<not> (alert_open st0 \<and> (case last_alert_until st0 of None \<Rightarrow> False | Some u \<Rightarrow> t < u)) \<and>
             (\<exists>since. blur_start st' = Some since \<and> threshold E \<le> t - since \<and>
                aggregator E' = enqueue (mk_candidate E cam since t) (aggregator E))))"
    and "k \<noteq> cam \<Longrightarrow> state E' k = state E k"
proof -
  define st1 where "st1 = (if \<not> is_blurry st0 then st0\<lparr> is_blurry := True, blur_start := Some t \<rparr> else st0)"
  define go where "go since \<longleftrightarrow>
      \<not> (alert_open st1 \<and> (case last_alert_until st1 of None \<Rightarrow> False | Some u \<Rightarrow> t < u))
                \<and> \<not> pending_candidate st1 \<and> t - since \<ge> threshold E" for since
  have E': "E' = (case blur_start st1 of
           None \<Rightarrow> E\<lparr> state := (state E)(cam \<mapsto> st1) \<rparr>
         | Some since \<Rightarrow>
             if go since
             then E\<lparr> aggregator := enqueue (mk_candidate E cam since t) (aggregator E),
                     state := (state E)(cam \<mapsto> st1\<lparr> pending_candidate := True \<rparr>) \<rparr>
             else E\<lparr> state := (state E)(cam \<mapsto> st1) \<rparr>)"
    unfolding E'_def process_blurry Let_def st1_def st0_def go_def ..
  have f: "alert_open st1 = alert_open st0" "last_alert_until st1 = last_alert_until st0"
    "pending_candidate st1 = pending_candidate st0" "is_blurry st1"
    "blur_start st1 = (if is_blurry st0 then blur_start st0 else Some t)"
    by (simp_all add: st1_def)
  show "k \<noteq> cam \<Longrightarrow> state E' k = state E k"
    unfolding E' by (simp split: option.split)
  show "\<exists>st'. state E' cam = Some st' \<and> alert_open st' = alert_open st0 \<and>
           last_alert_until st' = last_alert_until st0 \<and> is_blurry st' \<and>
           blur_start st' = (if is_blurry st0 then blur_start st0 else Some t) \<and>
           ((pending_candidate st' = pending_candidate st0 \<and> aggregator E' = aggregator E) \<or>
            (pending_candidate st' \<and> \<not> pending_candidate st0 \<and>
             \<not> (alert_open st0 \<and> (case last_alert_until st0 of None \<Rightarrow> False | Some u \<Rightarrow> t < u)) \<and>
             (\<exists>since. blur_start st' = Some since \<and> threshold E \<le> t - since \<and>
                aggregator E' = enqueue (mk_candidate E cam since t) (aggregator E))))"
  proof (cases "blur_start st1")
    case None
    with E' have "E' = E\<lparr> state := (state E)(cam \<mapsto> st1) \<rparr>" by simp
    then have "state E' cam = Some st1" "aggregator E' = aggregator E" by simp_all
    with f show ?thesis by (intro exI[of _ st1]) simp
  next
    case (Some since)
    show ?thesis
    proof (cases "go since")
      case True
      with E' Some have "E' = E\<lparr> aggregator := enqueue (mk_candidate E cam since t) (aggregator E),
                     state := (state E)(cam \<mapsto> st1\<lparr> pending_candidate := True \<rparr>) \<rparr>" by simp
      then have 1: "state E' cam = Some (st1\<lparr> pending_candidate := True \<rparr>)"
        "aggregator E' = enqueue (mk_candidate E cam since t) (aggregator E)" by simp_all
      from True f have 2: "\<not> pending_candidate st0"
        "\<not> (alert_open st0 \<and> (case last_alert_until st0 of None \<Rightarrow> False | Some u \<Rightarrow> t < u))"
        "threshold E \<le> t - since"
        by (simp_all add: go_def)
      from Some f(5) have 3: "(if is_blurry st0 then blur_start st0 else Some t) = Some since" by simp
      show ?thesis
        by (intro exI[of _ "st1\<lparr> pending_candidate := True \<rparr>"])
           (use 1 2 3 f Some in simp)
    next
      case False
      with E' Some have "E' = E\<lparr> state := (state E)(cam \<mapsto> st1) \<rparr>" by simp
      then have "state E' cam = Some st1" "aggregator E' = aggregator E" by simp_all
      with f show ?thesis by (intro exI[of _ st1]) simp
    qed
  qed
qed

lemma camera_id_mk_candidate [simp]:
  "camera_id (mk_candidate E cam since t) = cam" "ready_at (mk_candidate E cam since t) = t"
  "blur_since (mk_candidate E cam since t) = since"
  by (simp_all add: mk_candidate_def)

lemma process_aggregator_cases:
  "aggregator (AlertEngine_process t cam b E) = aggregator E \<or>
   aggregator (AlertEngine_process t cam b E) = cancel cam (aggregator E) \<or>
   (\<exists>since. aggregator (AlertEngine_process t cam b E)
              = enqueue (mk_candidate E cam since t) (aggregator E))"
proof (cases b)
  case True
  with process_blurry_result(1)[of t cam E] show ?thesis by auto
next
  case False
  with process_clear_result(2)[of t cam E] show ?thesis by auto
qed

lemma process_state_other:
  "k \<noteq> cam \<Longrightarrow> state (AlertEngine_process t cam b E) k = state E k"
  by (cases b) (simp_all add: process_blurry_result(2) process_clear_result(3))

lemma process_other_camera:
  assumes "k \<noteq> cam"
  shows "state (AlertEngine_process t cam b E) k = state E k"
    and "map_of (pending_by_camera (aggregator (AlertEngine_process t cam b E))) k =
         map_of (pending_by_camera (aggregator E)) k"
proof -
  show "state (AlertEngine_process t cam b E) k = state E k"
    by (rule process_state_other[OF assms])
  from process_aggregator_cases[of t cam b E]
  show "map_of (pending_by_camera (aggregator (AlertEngine_process t cam b E))) k =
         map_of (pending_by_camera (aggregator E)) k"
    using assms by (auto simp: enqueue_other_camera cancel_other_camera)
qed

lemma process_const:
  "engine_suppress (AlertEngine_process t cam b E) = engine_suppress E"
  "threshold (AlertEngine_process t cam b E) = threshold E"
  "line_lookup (AlertEngine_process t cam b E) = line_lookup E"
  "site_lookup (AlertEngine_process t cam b E) = site_lookup E"
  "episode_store (AlertEngine_process t cam b E) = episode_store E"
  "simulator (AlertEngine_process t cam b E) = simulator E"
  by (simp_all add: AlertEngine_process_def Let_def split: option.split)

text \<open>While an alert is open and its deadline has not come, an observation of the camera
  enqueues nothing.\<close>

lemma process_suppressed:
  assumes "state E cam = Some st" "alert_open st" "last_alert_until st = Some u" "t < u"
  shows "aggregator (AlertEngine_process t cam b E) =
           (if \<not> b \<and> pending_candidate st then cancel cam (aggregator E) else aggregator E)"
    and "\<exists>st'. state (AlertEngine_process t cam b E) cam = Some st' \<and>
              (pending_candidate st' \<longrightarrow> pending_candidate st) \<and>
              (b \<longrightarrow> alert_open st' \<and> last_alert_until st' = Some u \<and>
                    pending_candidate st' = pending_candidate st)"
proof -
  have st0: "state_or_init E cam = st" using assms(1) by (simp add: state_or_init_def)
  have "aggregator (AlertEngine_process t cam b E) =
           (if \<not> b \<and> pending_candidate st then cancel cam (aggregator E) else aggregator E) \<and>
        (\<exists>st'. state (AlertEngine_process t cam b E) cam = Some st' \<and>
              (pending_candidate st' \<longrightarrow> pending_candidate st) \<and>
              (b \<longrightarrow> alert_open st' \<and> last_alert_until st' = Some u \<and>
                    pending_candidate st' = pending_candidate st))"
  proof (cases b)
    case True
    from process_blurry_result(1)[of t cam E] assms(2,3,4) True st0 show ?thesis by auto
  next
    case False
    from process_clear_result(1,2)[of t cam E] False st0 show ?thesis by auto
  qed
  then show "aggregator (AlertEngine_process t cam b E) =
           (if \<not> b \<and> pending_candidate st then cancel cam (aggregator E) else aggregator E)"
    and "\<exists>st'. state (AlertEngine_process t cam b E) cam = Some st' \<and>
              (pending_candidate st' \<longrightarrow> pending_candidate st) \<and>
              (b \<longrightarrow> alert_open st' \<and> last_alert_until st' = Some u \<and>
                    pending_candidate st' = pending_candidate st)"
    by blast+
qed

lemma observe_all_Nil: "observe_all [] E = E"
  by (simp add: observe_all_def)

lemma observe_all_Cons:
  "observe_all (ob # obs) E =
     observe_all obs (AlertEngine_process (fst ob) (fst (snd ob)) (snd (snd ob)) E)"
  by (simp add: observe_all_def)

lemma observe_all_suppressed:
  assumes "state E cam = Some st" "alert_open st" "last_alert_until st = Some u"
    and "\<not> pending_candidate st"
    and "\<forall>ob \<in> set obs. fst (snd ob) = cam \<longrightarrow> fst ob < u \<and> snd (snd ob)"
  shows "aggregator_camera (observe_all obs E) cam = aggregator_camera E cam \<and>
         (\<exists>st'. state (observe_all obs E) cam = Some st' \<and> \<not> pending_candidate st' \<and>
                alert_open st' \<and> last_alert_until st' = Some u)"
  using assms
proof (induction obs arbitrary: E st)
  case Nil
  then show ?case by (simp add: observe_all_Nil)
next
  case (Cons ob obs)
  obtain t k b where ob: "ob = (t, k, b)" by (cases ob) auto
  let ?E' = "AlertEngine_process t k b E"
  have step: "aggregator_camera ?E' cam = aggregator_camera E cam \<and>
      (\<exists>st'. state ?E' cam = Some st' \<and> \<not> pending_candidate st' \<and>
                alert_open st' \<and> last_alert_until st' = Some u)"
  proof (cases "k = cam")
    case True
    with Cons.prems(5) ob have tb: "t < u" "b" by auto
    from process_suppressed[OF Cons.prems(1,2,3) tb(1), of b] tb(2) Cons.prems(4) True
    show ?thesis by (auto simp: aggregator_camera_def)
  next
    case False
    then have "cam \<noteq> k" by simp
    from process_other_camera[OF this, of t b E] Cons.prems(1,2,3,4)
    show ?thesis by (simp add: aggregator_camera_def)
  qed
  then obtain st' where st': "state ?E' cam = Some st'" "\<not> pending_candidate st'"
    "alert_open st'" "last_alert_until st' = Some u" by blast
  from Cons.prems(5) have rest: "\<forall>ob \<in> set obs. fst (snd ob) = cam \<longrightarrow> fst ob < u \<and> snd (snd ob)"
    by simp
  from Cons.IH[OF st'(1,3,4,2) rest] step ob show ?case
    by (simp add: observe_all_Cons)
qed

subsection \<open>Parsing the washdown schedule\<close>

lemma strptime_HM_error: "strptime_HM s = Inl e \<Longrightarrow> e = ValueError"
  by (auto simp: strptime_HM_def split: option.splits prod.splits if_splits)

lemma parse_chunk_error: "parse_chunk chunk = Inl e \<Longrightarrow> e = ValueError"
  by (auto simp: parse_chunk_def split: list.splits sum.splits dest: strptime_HM_error)

lemma parse_chunks_closed:
  "parse_chunks chunks windows printed =
     Inr (windows @ concat (map (\<lambda>chunk. case parse_chunk chunk of Inr w \<Rightarrow> [w] | Inl e \<Rightarrow> [])
                             (filter (\<lambda>chunk. chunk \<noteq> []) (map strip chunks))),
          printed @ concat (map (\<lambda>chunk. case parse_chunk chunk of Inr w \<Rightarrow> [] | Inl e \<Rightarrow> [warning chunk])
                             (filter (\<lambda>chunk. chunk \<noteq> []) (map strip chunks))))"
proof (induction chunks arbitrary: windows printed)
  case Nil
  then show ?case by simp
next
  case (Cons chunk chunks)
  show ?case
  proof (cases "strip chunk = []")
    case True
    with Cons.IH[of windows printed] show ?thesis by simp
  next
    case False
    show ?thesis
    proof (cases "parse_chunk (strip chunk)")
      case (Inl e)
      with parse_chunk_error[OF Inl] have "parse_chunk (strip chunk) = Inl ValueError" by simp
      with False Cons.IH[of windows "printed @ [warning (strip chunk)]"] show ?thesis by simp
    next
      case (Inr w)
      with False Cons.IH[of "windows @ [w]" printed] show ?thesis by simp
    qed
  qed
qed

subsection \<open>The concrete inputs, evaluated\<close>

lemma agg_one_eval:
  "agg_one = \<lparr> window = 10000000, min_count = 3, suppress = 60000000, washdown_schedule = [],
       pending_by_camera = [(''CAM-99'', cam99)],
       pending_by_site = [(''SiteA'', [(''CAM-99'', cam99)])],
       site_cooldown = Map.empty \<rparr>"
  by (simp add: agg_one_def enqueue_def SiteAlertAggregator_init_def timedelta_seconds_def cam99_def)

lemma agg_min1_eval:
  "agg_min1 = \<lparr> window = 5000000, min_count = 1, suppress = 10000000, washdown_schedule = [],
       pending_by_camera = [(''CAM-01'', cam01)],
       pending_by_site = [(''SiteA'', [(''CAM-01'', cam01)])],
       site_cooldown = Map.empty \<rparr>"
  by (simp add: agg_min1_def enqueue_def SiteAlertAggregator_init_def timedelta_seconds_def cam01_def)

lemma agg_washdown_eval:
  "agg_washdown = \<lparr> window = 30000000, min_count = 2, suppress = 60000000,
       washdown_schedule = [((23, 0, 0, 0), (1, 0, 0, 0))],
       pending_by_camera = [(''CAM-01'', cam_a), (''CAM-02'', cam_b)],
       pending_by_site = [(''SiteA'', [(''CAM-01'', cam_a), (''CAM-02'', cam_b)])],
       site_cooldown = Map.empty \<rparr>"
  by (simp add: agg_washdown_def agg_first_def enqueue_def SiteAlertAggregator_init_def
      timedelta_seconds_def cam_a_def cam_b_def)

lemma washdown_flush_eval:
  "process utc_time 1800000000 agg_washdown =
     ([\<lparr> kind = ''aggregate'', candidates = [cam_a, cam_b], action_site_id = ''SiteA'',
          washdown_hint = True \<rparr>],
      agg_washdown\<lparr> pending_by_camera := [], pending_by_site := [],
                     site_cooldown := [''SiteA'' \<mapsto> 1860000000] \<rparr>)"
  by (simp add: agg_washdown_eval cam_a_def cam_b_def process_def site_step_def single_step_def
      Let_def od_pop_def od_update_def pop_all_def within_washdown_def utc_time_def)

lemma agg_first_eval:
  "agg_first =
     \<lparr> window = 30000000, min_count = 2, suppress = 60000000,
       washdown_schedule = [((23, 0, 0, 0), (1, 0, 0, 0))],
       pending_by_camera = [(''CAM-01'', cam_a)],
       pending_by_site = [(''SiteA'', [(''CAM-01'', cam_a)])],
       site_cooldown = Map.empty \<rparr>"
  by (simp add: agg_first_def enqueue_def SiteAlertAggregator_init_def timedelta_seconds_def
      cam_a_def)

section \<open>The claims\<close>

text \<open>
  Claim C5. A candidate that is alone in its site's pool, in a flush where that pool does
  not reach the quorum: the flush emits the single action of the candidate exactly when
  \<open>now - ready_at \<ge> window\<close>, and any action of the flush that names the candidate's
  camera is that single action, so that none names it while \<open>now - ready_at < window\<close>.
\<close>

theorem lone_candidate_single_exactly_when_aged:
  assumes con: "pools_consistent A"
    and pool: "map_of (pending_by_site A) (site_id c) = Some [(camera_id c, c)]"
    and quorum: "int (length (filter (\<lambda>cand. now - ready_at cand \<le> window A) [c])) < min_count A"
  shows "(\<lparr> kind = ''single'', candidates = [c], action_site_id = site_id c,
            washdown_hint = False \<rparr> \<in> set (fst (process tz now A))
            \<longleftrightarrow> now - ready_at c \<ge> window A) \<and>
         (\<forall>a \<in> set (fst (process tz now A)).
            camera_id c \<in> camera_id ` set (candidates a) \<longrightarrow>
              now - ready_at c \<ge> window A \<and>
              a = \<lparr> kind = ''single'', candidates = [c], action_site_id = site_id c,
                    washdown_hint = False \<rparr>)"
proof -
  let ?S = "pending_by_site A" and ?k = "camera_id c" and ?s = "site_id c"
  have d: "distinct (map fst ?S)" by (rule consistentD_distinct(2)[OF con])
  from pool have sp: "(?s, [(?k, c)]) \<in> set ?S" by (rule map_of_SomeD)
  have nf: "\<not> fires now A ?s [(?k, c)]"
    using quorum by (simp add: fires_def active_of_def)
  have nsw: "\<not> swept now A ?S ?k"
    using swept_consistent[OF con sp, of ?k c now] nf by simp
  have g: "(?k, c) \<in> set (pending_by_camera A)"
    using consistentD_site(4)[OF con sp] by simp
  have 1: "single_action c \<in> set (fst (process tz now A)) \<longleftrightarrow> aged now A c"
  proof
    assume "single_action c \<in> set (fst (process tz now A))"
    then show "aged now A c" unfolding set_process[OF d] by auto
  next
    assume "aged now A c"
    with g nsw show "single_action c \<in> set (fst (process tz now A))"
      unfolding set_process[OF d] by blast
  qed
  have 2: "aged now A c \<and> a = single_action c"
    if a: "a \<in> set (fst (process tz now A))" and c: "?k \<in> camera_id ` set (candidates a)" for a
  proof -
    from a consider
      (agg) sp' where "sp' \<in> set ?S" "fires now A (fst sp') (snd sp')" "a = agg_action tz now A (fst sp') (snd sp')"
      | (single) k' c' where "(k', c') \<in> set (pending_by_camera A)" "aged now A c'" "a = single_action c'"
      unfolding set_process[OF d] by auto
    then show ?thesis
    proof cases
      case agg
      with c have "swept now A ?S ?k" unfolding swept_def by auto
      with nsw show ?thesis by simp
    next
      case single
      from c single(3) have "camera_id c' = ?k" by simp
      with consistentD_camera[OF con single(1)] have "k' = ?k" by simp
      with single(1) g consistentD_distinct(1)[OF con] have "c' = c"
        by (metis map_of_is_SomeI option.inject)
      with single show ?thesis by simp
    qed
  qed
  from 1 2 show ?thesis by (simp add: single_action_def aged_def)
qed

theorem lone_candidate_single_exactly_when_aged_witness:
  "pools_consistent agg_one \<and>
   map_of (pending_by_site agg_one) (site_id cam99) = Some [(camera_id cam99, cam99)] \<and>
   int (length (filter (\<lambda>cand. 41000000 - ready_at cand \<le> window agg_one) [cam99]))
     < min_count agg_one \<and>
   \<lparr> kind = ''single'', candidates = [cam99], action_site_id = ''SiteA'',
     washdown_hint = False \<rparr> \<in> set (fst (process utc_time 41000000 agg_one))"
proof -
  have 1: "pools_consistent agg_one"
    by (simp add: agg_one_eval pools_consistent_def cam99_def)
  have 2: "map_of (pending_by_site agg_one) (site_id cam99) = Some [(camera_id cam99, cam99)]"
    by (simp add: agg_one_eval cam99_def)
  have 3: "int (length (filter (\<lambda>cand. 41000000 - ready_at cand \<le> window agg_one) [cam99]))
             < min_count agg_one"
    by (simp add: agg_one_eval cam99_def)
  from lone_candidate_single_exactly_when_aged[OF 1 2 3, of utc_time] 1 2 3 show ?thesis
    by (simp add: agg_one_eval cam99_def)
qed

text \<open>
  Claim C6. Every action of a flush is an aggregate or a single action. The washdown hint
  of an aggregate action is true exactly when the local time of day of the \<open>ready_at\<close> of
  one of its candidates lies in a range of the schedule: between start and end, both
  included, for a range with \<open>start \<le> end\<close>; at or after start, or at or before end, for a
  range with \<open>start > end\<close>. A single action has no hint.
\<close>

theorem washdown_hint_iff_some_candidate_in_range:
  assumes "a \<in> set (fst (process tz now A))"
  shows "(kind a = ''aggregate'' \<or> kind a = ''single'') \<and>
         (kind a = ''aggregate'' \<longrightarrow>
            (washdown_hint a \<longleftrightarrow>
               (\<exists>c \<in> set (candidates a). \<exists>se \<in> set (washdown_schedule A).
                  (fst se \<le> snd se \<and> fst se \<le> tz (ready_at c) \<and> tz (ready_at c) \<le> snd se) \<or>
                  (fst se > snd se \<and> (tz (ready_at c) \<ge> fst se \<or> tz (ready_at c) \<le> snd se))))) \<and>
         (kind a = ''single'' \<longrightarrow> \<not> washdown_hint a)"
proof -
  from process_hint[of tz A now] assms have h: "hint_ok tz (washdown_schedule A) a"
    by (simp add: list_all_iff)
  show ?thesis
  proof (cases "kind a = ''aggregate''")
    case True
    with h have "washdown_hint a =
        (\<exists>c \<in> set (candidates a). schedule_matches (tz (ready_at c)) (washdown_schedule A))"
      by (simp add: hint_ok_def)
    with True show ?thesis by (simp add: schedule_matches_iff)
  next
    case False
    with h have "kind a = ''single''" "\<not> washdown_hint a" by (simp_all add: hint_ok_def)
    then show ?thesis by simp
  qed
qed

theorem washdown_hint_iff_some_candidate_in_range_witness:
  "\<lparr> kind = ''aggregate'', candidates = [cam_a, cam_b], action_site_id = ''SiteA'',
     washdown_hint = True \<rparr> \<in> set (fst (process utc_time 1800000000 agg_washdown)) \<and>
   utc_time (ready_at cam_a) = (0, 30, 0, 0) \<and>
   (\<exists>c \<in> set [cam_a, cam_b]. \<exists>se \<in> set (washdown_schedule agg_washdown).
       fst se > snd se \<and> (utc_time (ready_at c) \<ge> fst se \<or> utc_time (ready_at c) \<le> snd se))"
proof -
  let ?a = "\<lparr> kind = ''aggregate'', candidates = [cam_a, cam_b], action_site_id = ''SiteA'',
     washdown_hint = True \<rparr>"
  have 1: "?a \<in> set (fst (process utc_time 1800000000 agg_washdown))"
    by (simp add: agg_washdown_eval cam_a_def cam_b_def process_def site_step_def single_step_def
        Let_def od_pop_def od_update_def pop_all_def within_washdown_def utc_time_def)
  from washdown_hint_iff_some_candidate_in_range[OF 1] 1 show ?thesis
    by (simp add: agg_washdown_eval cam_a_def cam_b_def utc_time_def)
qed

text \<open>
  Claim C9. In an aggregator built with \<open>min_count = 1\<close>, a site whose pool holds exactly
  one candidate, of an age within the window, with no cooldown of the site in force: the
  flush emits the aggregate action of that one candidate for the site, and every action
  of the flush that holds the candidate is that aggregate, none a single action.
\<close>

theorem quorum_of_one_dispatches_aggregate:
  assumes con: "pools_consistent A"
    and mc: "min_count A = min_count (SiteAlertAggregator_init window_sec 1 suppress_sec schedule)"
    and pool: "map_of (pending_by_site A) s = Some [(k, c)]"
    and age: "now - ready_at c \<le> window A"
    and cd: "case site_cooldown A s of None \<Rightarrow> True | Some cooldown \<Rightarrow> now \<ge> cooldown"
  shows "\<lparr> kind = ''aggregate'', candidates = [c], action_site_id = s,
           washdown_hint = within_washdown tz A [c] \<rparr> \<in> set (fst (process tz now A)) \<and>
         (\<forall>a \<in> set (fst (process tz now A)).
            c \<in> set (candidates a) \<longrightarrow>
              kind a = ''aggregate'' \<and> candidates a = [c] \<and> action_site_id a = s)"
proof -
  let ?S = "pending_by_site A"
  have d: "distinct (map fst ?S)" by (rule consistentD_distinct(2)[OF con])
  from pool have sp: "(s, [(k, c)]) \<in> set ?S" by (rule map_of_SomeD)
  have act: "active_of now A [(k, c)] = [c]" using age by (simp add: active_of_def)
  have "min_count A = 1" using mc by (simp add: SiteAlertAggregator_init_def)
  then have f: "fires now A s [(k, c)]" using cd act by (simp add: fires_def)
  have "agg_action tz now A s [(k, c)] \<in> set (fst (process tz now A))"
    unfolding set_process[OF d] using sp f by force
  then have 1: "\<lparr> kind = ''aggregate'', candidates = [c], action_site_id = s,
           washdown_hint = within_washdown tz A [c] \<rparr> \<in> set (fst (process tz now A))"
    by (simp add: agg_action_def act)
  have sw: "swept now A ?S k"
    using swept_consistent[OF con sp, of k c now] f age by simp
  have ck: "camera_id c = k" using consistentD_site(1)[OF con sp] by simp
  have 2: "kind a = ''aggregate'' \<and> candidates a = [c] \<and> action_site_id a = s"
    if a: "a \<in> set (fst (process tz now A))" and c: "c \<in> set (candidates a)" for a
  proof -
    from a consider
      (agg) sp' where "sp' \<in> set ?S" "fires now A (fst sp') (snd sp')" "a = agg_action tz now A (fst sp') (snd sp')"
      | (single) k' c' where "(k', c') \<in> set (pending_by_camera A)" "\<not> swept now A ?S k'" "a = single_action c'"
      unfolding set_process[OF d] by auto
    then show ?thesis
    proof cases
      case agg
      from c agg(3) obtain k' where "(k', c) \<in> set (snd sp')" by (auto simp: in_active_of)
      moreover from agg(1) have sp': "(fst sp', snd sp') \<in> set ?S" by simp
      ultimately have "camera_id c = k'" using consistentD_site(1)[OF con] by blast
      with ck \<open>(k', c) \<in> set (snd sp')\<close> have "(k, c) \<in> set (snd sp')" by simp
      from consistent_site_unique[OF con sp _ sp' this]
      have "fst sp' = s" "snd sp' = [(k, c)]" by simp_all
      with agg(3) act show ?thesis by simp
    next
      case single
      from c single(3) have "c' = c" by simp
      with single(1) consistentD_camera[OF con] ck have "k' = k" by blast
      with single(2) sw show ?thesis by simp
    qed
  qed
  from 1 2 show ?thesis by blast
qed

theorem quorum_of_one_dispatches_aggregate_witness:
  "pools_consistent agg_min1 \<and>
   min_count agg_min1 = min_count (SiteAlertAggregator_init 5 1 10 None) \<and>
   map_of (pending_by_site agg_min1) ''SiteA'' = Some [(''CAM-01'', cam01)] \<and>
   1000000 - ready_at cam01 \<le> window agg_min1 \<and>
   site_cooldown agg_min1 ''SiteA'' = None \<and>
   \<lparr> kind = ''aggregate'', candidates = [cam01], action_site_id = ''SiteA'',
     washdown_hint = False \<rparr> \<in> set (fst (process utc_time 1000000 agg_min1))"
proof -
  have 1: "pools_consistent agg_min1"
    by (simp add: agg_min1_eval pools_consistent_def cam01_def)
  have 2: "min_count agg_min1 = min_count (SiteAlertAggregator_init 5 1 10 None)"
    by (simp add: agg_min1_eval SiteAlertAggregator_init_def)
  have 3: "map_of (pending_by_site agg_min1) ''SiteA'' = Some [(''CAM-01'', cam01)]"
    by (simp add: agg_min1_eval)
  have 4: "1000000 - ready_at cam01 \<le> window agg_min1"
    by (simp add: agg_min1_eval cam01_def)
  have 5: "case site_cooldown agg_min1 ''SiteA'' of None \<Rightarrow> True | Some cooldown \<Rightarrow> 1000000 \<ge> cooldown"
    by (simp add: agg_min1_eval)
  from quorum_of_one_dispatches_aggregate[OF 1 2 3 4 5, of utc_time] 1 2 3 4 show ?thesis
    by (simp add: agg_min1_eval within_washdown_def)
qed

text \<open>
  Claim C10. While a site's cooldown is in force (\<open>now\<close> is before it), the flush emits no
  aggregate action for the site, and still emits the single action of every candidate of
  the site's pool whose age has reached the window. The single loop does not read the
  cooldowns: run on a state with any other cooldown map, it appends the same actions and
  leaves the same pools.
\<close>

theorem site_cooldown_blocks_aggregate_only:
  assumes con: "pools_consistent A"
    and cd: "site_cooldown A s = Some cooldown" and before: "now < cooldown"
    and pool: "map_of (pending_by_site A) s = Some p" and mem: "(k, c) \<in> set p"
    and age: "now - ready_at c \<ge> window A"
  shows "\<lparr> kind = ''single'', candidates = [c], action_site_id = site_id c,
           washdown_hint = False \<rparr> \<in> set (fst (process tz now A)) \<and>
         (\<forall>a \<in> set (fst (process tz now A)). kind a = ''aggregate'' \<longrightarrow> action_site_id a \<noteq> s) \<and>
         (\<forall>snap ds cd'.
            process_singles now snap (ds, A\<lparr>site_cooldown := cd'\<rparr>) =
              (fst (process_singles now snap (ds, A)),
               (snd (process_singles now snap (ds, A)))\<lparr>site_cooldown := cd'\<rparr>))"
proof -
  let ?S = "pending_by_site A"
  have d: "distinct (map fst ?S)" by (rule consistentD_distinct(2)[OF con])
  from pool have sp: "(s, p) \<in> set ?S" by (rule map_of_SomeD)
  have nf: "\<not> fires now A s p" using cd before by (simp add: fires_def)
  have nsw: "\<not> swept now A ?S k"
    using swept_consistent[OF con sp mem, of now] nf by simp
  have g: "(k, c) \<in> set (pending_by_camera A)" by (rule consistentD_site(4)[OF con sp mem])
  have "single_action c \<in> set (fst (process tz now A))"
    unfolding set_process[OF d] using g nsw age by (auto simp: aged_def)
  then have 1: "\<lparr> kind = ''single'', candidates = [c], action_site_id = site_id c,
           washdown_hint = False \<rparr> \<in> set (fst (process tz now A))"
    by (simp add: single_action_def)
  have 2: "action_site_id a \<noteq> s" if "a \<in> set (fst (process tz now A))" "kind a = ''aggregate''" for a
  proof
    assume s: "action_site_id a = s"
    from that obtain sp' where sp': "sp' \<in> set ?S" "fires now A (fst sp') (snd sp')"
       "a = agg_action tz now A (fst sp') (snd sp')"
      unfolding set_process[OF d] by auto
    with s have "fst sp' = s" by simp
    with sp'(1) have "(s, snd sp') \<in> set ?S" by (metis prod.collapse)
    from consistent_site_lookup[OF con this] pool have "snd sp' = p" by simp
    with sp'(2) \<open>fst sp' = s\<close> nf show False by simp
  qed
  from 1 2 process_singles_cooldown_indep show ?thesis by blast
qed

theorem site_cooldown_blocks_aggregate_only_witness:
  "pools_consistent agg_cooling \<and>
   site_cooldown agg_cooling ''SiteA'' = Some 100000000 \<and> (41000000 :: int) < 100000000 \<and>
   map_of (pending_by_site agg_cooling) ''SiteA'' = Some [(''CAM-99'', cam99)] \<and>
   41000000 - ready_at cam99 \<ge> window agg_cooling \<and>
   \<lparr> kind = ''single'', candidates = [cam99], action_site_id = ''SiteA'',
     washdown_hint = False \<rparr> \<in> set (fst (process utc_time 41000000 agg_cooling))"
proof -
  have 1: "pools_consistent agg_cooling"
    by (simp add: agg_cooling_def agg_one_eval pools_consistent_def cam99_def)
  have 2: "site_cooldown agg_cooling ''SiteA'' = Some 100000000"
    by (simp add: agg_cooling_def)
  have 3: "(41000000 :: int) < 100000000" by simp
  have 4: "map_of (pending_by_site agg_cooling) ''SiteA'' = Some [(''CAM-99'', cam99)]"
    by (simp add: agg_cooling_def agg_one_eval)
  have 5: "(''CAM-99'', cam99) \<in> set [(''CAM-99'', cam99)]" by simp
  have 6: "41000000 - ready_at cam99 \<ge> window agg_cooling"
    by (simp add: agg_cooling_def agg_one_eval cam99_def)
  from site_cooldown_blocks_aggregate_only[OF 1 2 3 4 5 6, of utc_time] 1 2 4 6 show ?thesis
    by (simp add: cam99_def)
qed

text \<open>
  Claim C3. A flush emits an aggregate action for a site exactly when the number of the
  candidates of the site's pool with \<open>now - ready_at \<le> window\<close> is at least \<open>min_count\<close>
  and the site has no cooldown or \<open>now\<close> has reached it. When it emits one, the action
  holds exactly those candidates, their cameras are in neither pool afterwards, the site's
  cooldown is \<open>now + suppress\<close>, and after any further sequence of enqueue, cancel and
  flush calls a flush at a time before \<open>now + suppress\<close> emits no aggregate for the site.
\<close>

theorem aggregate_iff_quorum_outside_cooldown:
  assumes d: "distinct (map fst (pending_by_site A))"
    and mc: "min_count A = min_count (SiteAlertAggregator_init window_sec min_cnt suppress_sec schedule)"
    and sup: "suppress A = suppress (SiteAlertAggregator_init window_sec min_cnt suppress_sec schedule)"
  shows "((\<exists>a \<in> set (fst (process tz now A)). kind a = ''aggregate'' \<and> action_site_id a = s) \<longleftrightarrow>
            int (length (filter (\<lambda>cand. now - ready_at cand \<le> window A)
                   (case map_of (pending_by_site A) s of None \<Rightarrow> [] | Some p \<Rightarrow> map snd p)))
              \<ge> min_count A \<and>
            (case site_cooldown A s of None \<Rightarrow> True | Some cooldown \<Rightarrow> now \<ge> cooldown)) \<and>
         (\<forall>a \<in> set (fst (process tz now A)).
            kind a = ''aggregate'' \<and> action_site_id a = s \<longrightarrow>
              candidates a =
                filter (\<lambda>cand. now - ready_at cand \<le> window A)
                  (case map_of (pending_by_site A) s of None \<Rightarrow> [] | Some p \<Rightarrow> map snd p) \<and>
              (\<forall>c \<in> set (candidates a).
                 map_of (pending_by_camera (snd (process tz now A))) (camera_id c) = None \<and>
                 (\<forall>p'. map_of (pending_by_site (snd (process tz now A))) s = Some p' \<longrightarrow>
                       map_of p' (camera_id c) = None)) \<and>
              site_cooldown (snd (process tz now A)) s = Some (now + suppress A) \<and>
              (\<forall>ops t. t < now + suppress A \<longrightarrow>
                 (\<forall>b \<in> set (fst (process tz t (run_ops tz ops (snd (process tz now A))))).
                    kind b = ''aggregate'' \<longrightarrow> action_site_id b \<noteq> s)))"
proof -
  let ?S = "pending_by_site A" and ?A' = "snd (process tz now A)"
  let ?cands = "case map_of ?S s of None \<Rightarrow> [] | Some p \<Rightarrow> map snd p"
  let ?active = "filter (\<lambda>cand. now - ready_at cand \<le> window A) ?cands"
  let ?cond = "int (length ?active) \<ge> min_count A \<and>
               (case site_cooldown A s of None \<Rightarrow> True | Some cooldown \<Rightarrow> now \<ge> cooldown)"
  have mc1: "1 \<le> min_count A" using mc by (simp add: SiteAlertAggregator_init_def)
  have sup0: "0 < suppress A"
    using sup by (simp add: SiteAlertAggregator_init_def timedelta_seconds_def)
  have lookup: "map_of ?S s = Some p" if "(s, p) \<in> set ?S" for p
    using that d by simp
  have fires_cond: "fires now A s p \<longleftrightarrow> ?cond" if "(s, p) \<in> set ?S" for p
    using lookup[OF that] by (simp add: fires_def active_of_def)
  have agg: "\<exists>p. (s, p) \<in> set ?S \<and> fires now A s p \<and> a = agg_action tz now A s p"
    if "a \<in> set (fst (process tz now A))" "kind a = ''aggregate''" "action_site_id a = s" for a
  proof -
    from that(1,2) obtain sp where sp: "sp \<in> set ?S" "fires now A (fst sp) (snd sp)"
      "a = agg_action tz now A (fst sp) (snd sp)"
      unfolding set_process[OF d] by auto
    with that(3) have "fst sp = s" by simp
    with sp have "(s, snd sp) \<in> set ?S \<and> fires now A s (snd sp) \<and> a = agg_action tz now A s (snd sp)"
      by (metis prod.collapse)
    then show ?thesis by blast
  qed
  have 1: "(\<exists>a \<in> set (fst (process tz now A)). kind a = ''aggregate'' \<and> action_site_id a = s) \<longleftrightarrow> ?cond"
  proof
    assume "\<exists>a \<in> set (fst (process tz now A)). kind a = ''aggregate'' \<and> action_site_id a = s"
    then obtain a where "a \<in> set (fst (process tz now A))" "kind a = ''aggregate''" "action_site_id a = s"
      by blast
    from agg[OF this] fires_cond show ?cond by blast
  next
    assume c: ?cond
    with mc1 have "?active \<noteq> []" by auto
    then obtain p where p: "map_of ?S s = Some p" by (cases "map_of ?S s") auto
    then have sp: "(s, p) \<in> set ?S" by (rule map_of_SomeD)
    with c fires_cond have "fires now A s p" by blast
    with sp have "agg_action tz now A s p \<in> set (fst (process tz now A))"
      unfolding set_process[OF d] by force
    then show "\<exists>a \<in> set (fst (process tz now A)). kind a = ''aggregate'' \<and> action_site_id a = s"
      by (intro bexI[of _ "agg_action tz now A s p"]) simp_all
  qed
  have 2: "candidates a = ?active \<and>
      (\<forall>c \<in> set (candidates a).
         map_of (pending_by_camera ?A') (camera_id c) = None \<and>
         (\<forall>p'. map_of (pending_by_site ?A') s = Some p' \<longrightarrow> map_of p' (camera_id c) = None)) \<and>
      site_cooldown ?A' s = Some (now + suppress A) \<and>
      (\<forall>ops t. t < now + suppress A \<longrightarrow>
         (\<forall>b \<in> set (fst (process tz t (run_ops tz ops ?A'))).
            kind b = ''aggregate'' \<longrightarrow> action_site_id b \<noteq> s))"
    if a: "a \<in> set (fst (process tz now A))" "kind a = ''aggregate''" "action_site_id a = s" for a
  proof -
    from agg[OF a] obtain p where p: "(s, p) \<in> set ?S" "fires now A s p"
      "a = agg_action tz now A s p" by blast
    have ca: "candidates a = ?active"
      using p(3) lookup[OF p(1)] by (simp add: active_of_def)
    have act: "candidates a = active_of now A p" using p(3) by simp
    have removed: "map_of (pending_by_camera ?A') (camera_id c) = None \<and>
         (\<forall>p'. map_of (pending_by_site ?A') s = Some p' \<longrightarrow> map_of p' (camera_id c) = None)"
      if c: "c \<in> set (candidates a)" for c
    proof
      let ?acc1 = "process_sites tz now ?S ([], A)"
      from c act p(1,2) have sw: "swept now A ?S (camera_id c)"
        unfolding swept_def by force
      then have "camera_id c \<notin> fst ` set (pending_by_camera (snd ?acc1))"
        by (auto simp: process_sites_camera_pool[OF d])
      moreover have "set (pending_by_camera ?A') \<subseteq> set (pending_by_camera (snd ?acc1))"
        unfolding process_def Let_def by (rule process_singles_camera_pool_subset)
      ultimately have "camera_id c \<notin> fst ` set (pending_by_camera ?A')" by blast
      then show "map_of (pending_by_camera ?A') (camera_id c) = None"
        by (simp add: map_of_eq_None_iff)
      show "\<forall>p'. map_of (pending_by_site ?A') s = Some p' \<longrightarrow> map_of p' (camera_id c) = None"
      proof (intro allI impI)
        fix p' assume "map_of (pending_by_site ?A') s = Some p'"
        then have "(s, p') \<in> set (pending_by_site ?A')" by (rule map_of_SomeD)
        moreover have "pools_sub (pending_by_site ?A') (new_pools now A ?S)"
          using process_singles_pools_sub[of now "pending_by_camera (snd ?acc1)" ?acc1]
          unfolding process_def Let_def process_sites_whole[OF d] .
        ultimately obtain sp1 where sp1: "sp1 \<in> set (new_pools now A ?S)" "fst sp1 = s"
          "set p' \<subseteq> set (snd sp1)"
          unfolding pools_sub_def by force
        then have "(s, snd sp1) \<in> set (new_pools now A ?S)" by (metis prod.collapse)
        then obtain p0 where p0: "(s, p0) \<in> set ?S" "snd sp1 = step_pool now A s p0"
          unfolding in_new_pools by blast
        from lookup[OF p0(1)] lookup[OF p(1)] have "p0 = p" by simp
        with p0(2) p(2) have "snd sp1 = pop_all (active_of now A p) p" by (simp add: step_pool_def)
        with c act have "camera_id c \<notin> fst ` set (snd sp1)" by (auto simp: pop_all_filter)
        with sp1(3) have "camera_id c \<notin> fst ` set p'" by blast
        then show "map_of p' (camera_id c) = None" by (simp add: map_of_eq_None_iff)
      qed
    qed
    have cd: "site_cooldown ?A' s = Some (now + suppress A)"
      using process_cooldown[OF d, of tz now s] p(1,2) by auto
    have later: "action_site_id b \<noteq> s"
      if t: "t < now + suppress A"
        and b: "b \<in> set (fst (process tz t (run_ops tz ops ?A')))" "kind b = ''aggregate''"
      for ops t b
    proof -
      have "0 < suppress ?A'" using sup0 by (simp add: process_config)
      from run_ops_cooldown[OF process_distinct_sites[OF d] this cd order_refl, of tz ops]
      obtain cd' where cd': "distinct (map fst (pending_by_site (run_ops tz ops ?A')))"
        "site_cooldown (run_ops tz ops ?A') s = Some cd'" "now + suppress A \<le> cd'" by blast
      from t cd'(3) have "t < cd'" by simp
      from process_no_aggregate_in_cooldown[OF cd'(1,2) this b] show ?thesis .
    qed
    from ca removed cd later show ?thesis by blast
  qed
  from 1 2 show ?thesis by blast
qed

theorem aggregate_iff_quorum_outside_cooldown_witness:
  "distinct (map fst (pending_by_site agg_washdown)) \<and>
   min_count agg_washdown = min_count (SiteAlertAggregator_init 30 2 60 None) \<and>
   suppress agg_washdown = suppress (SiteAlertAggregator_init 30 2 60 None) \<and>
   fst (process utc_time 1800000000 agg_washdown) =
     [\<lparr> kind = ''aggregate'', candidates = [cam_a, cam_b], action_site_id = ''SiteA'',
        washdown_hint = True \<rparr>] \<and>
   site_cooldown (snd (process utc_time 1800000000 agg_washdown)) ''SiteA'' = Some 1860000000 \<and>
   map_of (pending_by_camera (snd (process utc_time 1800000000 agg_washdown))) ''CAM-01'' = None \<and>
   [b \<leftarrow> fst (process utc_time 1815000000
                (run_ops utc_time [Enqueue cam_c, Enqueue cam_d]
                   (snd (process utc_time 1800000000 agg_washdown)))).
      kind b = ''aggregate'' \<and> action_site_id b = ''SiteA''] = []"
proof -
  let ?a = "\<lparr> kind = ''aggregate'', candidates = [cam_a, cam_b], action_site_id = ''SiteA'',
        washdown_hint = True \<rparr>"
  let ?A' = "snd (process utc_time 1800000000 agg_washdown)"
  have 1: "distinct (map fst (pending_by_site agg_washdown))" by (simp add: agg_washdown_eval)
  have 2: "min_count agg_washdown = min_count (SiteAlertAggregator_init 30 2 60 None)"
    by (simp add: agg_washdown_eval SiteAlertAggregator_init_def)
  have 3: "suppress agg_washdown = suppress (SiteAlertAggregator_init 30 2 60 None)"
    by (simp add: agg_washdown_eval SiteAlertAggregator_init_def timedelta_seconds_def)
  have 4: "fst (process utc_time 1800000000 agg_washdown) = [?a]"
    by (simp add: washdown_flush_eval)
  have mem: "?a \<in> set (fst (process utc_time 1800000000 agg_washdown))" by (simp add: 4)
  have k: "kind ?a = ''aggregate'' \<and> action_site_id ?a = ''SiteA''" by simp
  note T = aggregate_iff_quorum_outside_cooldown[OF 1 2 3, of utc_time 1800000000 "''SiteA''",
      THEN conjunct2, THEN bspec, OF mem, THEN mp, OF k]
  from T[THEN conjunct2, THEN conjunct2, THEN conjunct1]
  have 6: "site_cooldown ?A' ''SiteA'' = Some 1860000000"
    by (simp add: agg_washdown_eval)
  from T[THEN conjunct2, THEN conjunct1]
  have "map_of (pending_by_camera ?A') (camera_id cam_a) = None" by simp
  then have 7: "map_of (pending_by_camera ?A') ''CAM-01'' = None"
    by (simp add: cam_a_def)
  note L = T[THEN conjunct2, THEN conjunct2, THEN conjunct2, rule_format]
  have t: "1815000000 < 1800000000 + suppress agg_washdown" by (simp add: agg_washdown_eval)
  have "\<not> (kind b = ''aggregate'' \<and> action_site_id b = ''SiteA'')"
    if "b \<in> set (fst (process utc_time 1815000000
                (run_ops utc_time [Enqueue cam_c, Enqueue cam_d] ?A')))" for b
    using L[OF t that] by blast
  then have 8: "[b \<leftarrow> fst (process utc_time 1815000000
                (run_ops utc_time [Enqueue cam_c, Enqueue cam_d] ?A')).
      kind b = ''aggregate'' \<and> action_site_id b = ''SiteA''] = []"
    unfolding filter_empty_conv by blast
  from 1 2 3 4 6 7 8 show ?thesis by blast
qed

text \<open>
  Claim C7. With consistent pools: cancelling a camera that has no pending candidate
  changes nothing. Cancelling a camera with a pending candidate removes the camera from
  the camera pool and from every site pool, drops a site pool that has become empty, and
  leaves every other entry as it was; when the candidate had just been enqueued for a
  camera that was not pending, the aggregator is back in the state before the enqueue.
  After the cancel, and after any further calls that do not enqueue the camera again, no
  flush at any time emits an action that holds a candidate of the camera.
\<close>

theorem cancel_removes_candidate_from_both_pools:
  assumes con: "pools_consistent A"
  shows "(map_of (pending_by_camera A) cam = None \<longrightarrow> cancel cam A = A) \<and>
         (\<forall>c. map_of (pending_by_camera A) cam = Some c \<longrightarrow>
            map_of (pending_by_camera (cancel cam A)) cam = None \<and>
            (\<forall>k. k \<noteq> cam \<longrightarrow>
               map_of (pending_by_camera (cancel cam A)) k = map_of (pending_by_camera A) k) \<and>
            (\<forall>s. map_of (pending_by_site (cancel cam A)) s =
                   (case map_of (pending_by_site A) s of
                      None \<Rightarrow> None
                    | Some p \<Rightarrow> if od_pop cam p = [] then None else Some (od_pop cam p))) \<and>
            (\<forall>A0. pools_consistent A0 \<and> map_of (pending_by_camera A0) cam = None \<and>
                   A = enqueue c A0 \<longrightarrow> cancel cam A = A0)) \<and>
         (\<forall>ops now. (\<forall>c'. Enqueue c' \<in> set ops \<longrightarrow> camera_id c' \<noteq> cam) \<longrightarrow>
            (\<forall>a \<in> set (fst (process tz now (run_ops tz ops (cancel cam A)))).
               cam \<notin> camera_id ` set (candidates a)))"
proof -
  have 1: "map_of (pending_by_camera A) cam = None \<longrightarrow> cancel cam A = A"
    by (simp add: cancel_not_pending)
  have 2: "map_of (pending_by_camera (cancel cam A)) cam = None \<and>
            (\<forall>k. k \<noteq> cam \<longrightarrow>
               map_of (pending_by_camera (cancel cam A)) k = map_of (pending_by_camera A) k) \<and>
            (\<forall>s. map_of (pending_by_site (cancel cam A)) s =
                   (case map_of (pending_by_site A) s of
                      None \<Rightarrow> None
                    | Some p \<Rightarrow> if od_pop cam p = [] then None else Some (od_pop cam p))) \<and>
            (\<forall>A0. pools_consistent A0 \<and> map_of (pending_by_camera A0) cam = None \<and>
                   A = enqueue c A0 \<longrightarrow> cancel cam A = A0)"
    if c: "map_of (pending_by_camera A) cam = Some c" for c
  proof -
    have a: "map_of (pending_by_camera (cancel cam A)) cam = None"
      using c by (simp add: cancel_def map_of_od_pop)
    have b: "map_of (pending_by_camera (cancel cam A)) k = map_of (pending_by_camera A) k"
      if "k \<noteq> cam" for k
      using c that by (simp add: cancel_def map_of_od_pop)
    have k: "camera_id c = cam"
      using consistentD_camera[OF con map_of_SomeD[OF c]] .
    have e: "cancel cam A = A0"
      if "pools_consistent A0" "map_of (pending_by_camera A0) cam = None" "A = enqueue c A0" for A0
      using cancel_enqueue[of A0 c] that k by simp
    from a b cancel_site_pools[OF con c] e show ?thesis by blast
  qed
  have 3: "cam \<notin> camera_id ` set (candidates a)"
    if ops: "\<forall>c'. Enqueue c' \<in> set ops \<longrightarrow> camera_id c' \<noteq> cam"
      and a: "a \<in> set (fst (process tz now (run_ops tz ops (cancel cam A))))" for ops now a
  proof -
    have "pools_keyed (cancel cam A)"
      using apply_op_keyed[OF consistent_keyed[OF con], of tz "Cancel cam"] by simp
    from run_ops_keyed_absent[OF this cancel_absent[OF con] ops, of tz]
    have "pools_keyed (run_ops tz ops (cancel cam A))" "camera_absent cam (run_ops tz ops (cancel cam A))"
      by simp_all
    from process_no_reference[OF this a] show ?thesis .
  qed
  from 1 2 3 show ?thesis by blast
qed

theorem cancel_removes_candidate_from_both_pools_witness:
  "pools_consistent agg_washdown \<and>
   map_of (pending_by_camera agg_washdown) ''CAM-02'' = Some cam_b \<and>
   cancel ''CAM-02'' agg_washdown = agg_first \<and>
   map_of (pending_by_camera (cancel ''CAM-02'' agg_washdown)) ''CAM-02'' = None \<and>
   map_of (pending_by_site (cancel ''CAM-02'' agg_washdown)) ''SiteA'' = Some [(''CAM-01'', cam_a)] \<and>
   [a \<leftarrow> fst (process utc_time 1900000000 (run_ops utc_time [Enqueue cam_c] (cancel ''CAM-02'' agg_washdown))).
      ''CAM-02'' \<in> camera_id ` set (candidates a)] = []"
proof -
  let ?A0 = agg_first
  have 1: "pools_consistent agg_washdown"
    by (simp add: agg_washdown_eval pools_consistent_def cam_a_def cam_b_def)
  have 2: "map_of (pending_by_camera agg_washdown) ''CAM-02'' = Some cam_b"
    by (simp add: agg_washdown_eval)
  have 3: "pools_consistent ?A0"
    by (simp add: agg_first_eval pools_consistent_def cam_a_def)
  have 4: "map_of (pending_by_camera ?A0) ''CAM-02'' = None"
    by (simp add: agg_first_eval)
  have 5: "agg_washdown = enqueue cam_b ?A0" by (simp add: agg_washdown_def)
  note T = cancel_removes_candidate_from_both_pools[OF 1, of "''CAM-02''" utc_time]
  from T 2 3 4 5 have 6: "cancel ''CAM-02'' agg_washdown = ?A0" by blast
  from T 2 have 7: "map_of (pending_by_camera (cancel ''CAM-02'' agg_washdown)) ''CAM-02'' = None"
    by blast
  from T 2 have "map_of (pending_by_site (cancel ''CAM-02'' agg_washdown)) ''SiteA'' =
                   (case map_of (pending_by_site agg_washdown) ''SiteA'' of
                      None \<Rightarrow> None
                    | Some p \<Rightarrow> if od_pop ''CAM-02'' p = [] then None else Some (od_pop ''CAM-02'' p))"
    by blast
  then have 8: "map_of (pending_by_site (cancel ''CAM-02'' agg_washdown)) ''SiteA'' = Some [(''CAM-01'', cam_a)]"
    by (simp add: agg_washdown_eval od_pop_def)
  have "\<forall>c'. Enqueue c' \<in> set [Enqueue cam_c] \<longrightarrow> camera_id c' \<noteq> ''CAM-02''"
    by (simp add: cam_c_def)
  with T have "\<forall>a \<in> set (fst (process utc_time 1900000000
        (run_ops utc_time [Enqueue cam_c] (cancel ''CAM-02'' agg_washdown)))).
               ''CAM-02'' \<notin> camera_id ` set (candidates a)"
    by blast
  then have 9: "[a \<leftarrow> fst (process utc_time 1900000000 (run_ops utc_time [Enqueue cam_c] (cancel ''CAM-02'' agg_washdown))).
      ''CAM-02'' \<in> camera_id ` set (candidates a)] = []"
    by (simp add: filter_empty_conv)
  from 1 2 6 7 8 9 show ?thesis by blast
qed

text \<open>
  Claim C4. The response to an action, applied to a camera of the action that has a state.
  On \<open>clean\<close> the camera's state becomes the clear state, the episode
  \<open>(camera, blur_start, now)\<close> is appended when \<open>blur_start\<close> was set, and the simulator, when
  there is one, no longer holds the camera as blurry. On any other answer the state keeps
  \<open>is_blurry\<close> and \<open>blur_start\<close>, with \<open>pending_candidate\<close> false, \<open>alert_open\<close> true and
  \<open>last_alert_until = now + suppress\<close>; nothing else changes; and an observation of the
  camera before that deadline enqueues nothing, and neither does any run of observations
  in which the camera is seen blurry before the deadline only.
\<close>

theorem response_clean_clears_ignore_suppresses:
  fixes E now camera_ids decision
  defines "E' \<equiv> after_alert now camera_ids decision E"
  assumes mem: "cam \<in> set camera_ids" and st: "state E cam = Some st"
  shows "(decision = ''clean'' \<longrightarrow>
            state E' cam = Some \<lparr> is_blurry = False, blur_start = None, last_alert_until = None,
                                  alert_open = False, pending_candidate = False \<rparr> \<and>
            (\<forall>since. blur_start st = Some since \<longrightarrow>
               (\<exists>new. episode_store E' = episode_store E @ new \<and> (cam, since, now) \<in> set new)) \<and>
            (simulator E' = None \<longleftrightarrow> simulator E = None) \<and>
            (\<forall>sim. simulator E' = Some sim \<longrightarrow> sim cam \<noteq> Some True)) \<and>
         (decision \<noteq> ''clean'' \<longrightarrow>
            state E' cam = Some (st\<lparr> pending_candidate := False, alert_open := True,
                                     last_alert_until := Some (now + engine_suppress E) \<rparr>) \<and>
            episode_store E' = episode_store E \<and> simulator E' = simulator E \<and>
            aggregator E' = aggregator E \<and>
            (\<forall>t blurry. t < now + engine_suppress E \<longrightarrow>
               aggregator (AlertEngine_process t cam blurry E') = aggregator E' \<and>
               (\<exists>st'. state (AlertEngine_process t cam blurry E') cam = Some st' \<and>
                      \<not> pending_candidate st')) \<and>
            (\<forall>obs. (\<forall>ob \<in> set obs. fst (snd ob) = cam \<longrightarrow>
                        fst ob < now + engine_suppress E \<and> snd (snd ob)) \<longrightarrow>
               map_of (pending_by_camera (aggregator (observe_all obs E'))) cam =
                 map_of (pending_by_camera (aggregator E)) cam \<and>
               (\<exists>st'. state (observe_all obs E') cam = Some st' \<and> \<not> pending_candidate st' \<and>
                      alert_open st' \<and> last_alert_until st' = Some (now + engine_suppress E))))"
proof (intro conjI impI)
  assume d: "decision = ''clean''"
  have "state E' cam = Some (respond_state now ''clean'' (engine_suppress E) st)"
    unfolding E'_def using mem st d by (simp add: after_alert_state)
  then show "state E' cam = Some \<lparr> is_blurry = False, blur_start = None, last_alert_until = None,
                                  alert_open = False, pending_candidate = False \<rparr>"
    by (simp add: respond_state_def)
  show "\<forall>since. blur_start st = Some since \<longrightarrow>
               (\<exists>new. episode_store E' = episode_store E @ new \<and> (cam, since, now) \<in> set new)"
    unfolding E'_def d using after_alert_clean(2)[OF mem st] by blast
  show "simulator E' = None \<longleftrightarrow> simulator E = None"
    unfolding E'_def by (rule after_alert_simulator_None)
  from after_alert_clean(1)[OF mem st, of now]
  show "\<forall>sim. simulator E' = Some sim \<longrightarrow> sim cam \<noteq> Some True"
    unfolding E'_def d by (auto simp: flag_clear_def split: option.splits)
next
  assume d: "decision \<noteq> ''clean''"
  let ?D = "now + engine_suppress E"
  let ?st' = "st\<lparr> pending_candidate := False, alert_open := True, last_alert_until := Some ?D \<rparr>"
  show st': "state E' cam = Some ?st'"
    unfolding E'_def using mem st d by (simp add: after_alert_state respond_state_def)
  show "episode_store E' = episode_store E" "simulator E' = simulator E"
    unfolding E'_def by (rule after_alert_ignore_same[OF d])+
  show agg: "aggregator E' = aggregator E" unfolding E'_def by (rule after_alert_const)
  show "\<forall>t blurry. t < ?D \<longrightarrow>
               aggregator (AlertEngine_process t cam blurry E') = aggregator E' \<and>
               (\<exists>st'. state (AlertEngine_process t cam blurry E') cam = Some st' \<and>
                      \<not> pending_candidate st')"
  proof (intro allI impI)
    fix t blurry assume t: "t < ?D"
    from process_suppressed[OF st' _ _ t, of blurry]
    show "aggregator (AlertEngine_process t cam blurry E') = aggregator E' \<and>
               (\<exists>st'. state (AlertEngine_process t cam blurry E') cam = Some st' \<and>
                      \<not> pending_candidate st')"
      by auto
  qed
  show "\<forall>obs. (\<forall>ob \<in> set obs. fst (snd ob) = cam \<longrightarrow> fst ob < ?D \<and> snd (snd ob)) \<longrightarrow>
               map_of (pending_by_camera (aggregator (observe_all obs E'))) cam =
                 map_of (pending_by_camera (aggregator E)) cam \<and>
               (\<exists>st'. state (observe_all obs E') cam = Some st' \<and> \<not> pending_candidate st' \<and>
                      alert_open st' \<and> last_alert_until st' = Some ?D)"
  proof (intro allI impI)
    fix obs assume obs: "\<forall>ob \<in> set obs. fst (snd ob) = cam \<longrightarrow> fst ob < ?D \<and> snd (snd ob)"
    from observe_all_suppressed[OF st' _ _ _ obs] agg
    show "map_of (pending_by_camera (aggregator (observe_all obs E'))) cam =
                 map_of (pending_by_camera (aggregator E)) cam \<and>
               (\<exists>st'. state (observe_all obs E') cam = Some st' \<and> \<not> pending_candidate st' \<and>
                      alert_open st' \<and> last_alert_until st' = Some ?D)"
      by (simp add: aggregator_camera_def)
  qed
qed

theorem response_clean_clears_ignore_suppresses_witness:
  "''CAM-01'' \<in> set [''CAM-01''] \<and> state engine_pending ''CAM-01'' = Some st_pending \<and>
   state (after_alert 240000000 [''CAM-01''] ''clean'' engine_pending) ''CAM-01'' =
     Some CameraAlertState_init \<and>
   episode_store (after_alert 240000000 [''CAM-01''] ''clean'' engine_pending) =
     [(''CAM-01'', 0, 240000000)] \<and>
   state (after_alert 60000000 [''CAM-01''] ''ignore'' engine_pending) ''CAM-01'' =
     Some \<lparr> is_blurry = True, blur_start = Some 0, last_alert_until = Some 90000000,
            alert_open = True, pending_candidate = False \<rparr> \<and>
   aggregator (AlertEngine_process 89999999 ''CAM-01'' True
                 (after_alert 60000000 [''CAM-01''] ''ignore'' engine_pending)) =
     aggregator engine_pending"
proof -
  have 1: "''CAM-01'' \<in> set [''CAM-01'']" by simp
  have 2: "state engine_pending ''CAM-01'' = Some st_pending" by (simp add: engine_pending_def)
  have sup: "engine_suppress engine_pending = 30000000"
    by (simp add: engine_pending_def AlertEngine_init_def timedelta_seconds_def)
  have eps: "episode_store engine_pending = []"
    by (simp add: engine_pending_def AlertEngine_init_def)
  note C = response_clean_clears_ignore_suppresses[where now = 240000000 and decision = "''clean''",
      OF 1 2, THEN conjunct1,
      THEN mp, OF refl]
  from C[THEN conjunct1]
  have 3: "state (after_alert 240000000 [''CAM-01''] ''clean'' engine_pending) ''CAM-01'' =
     Some CameraAlertState_init"
    by (simp add: CameraAlertState_init_def)
  have 4: "episode_store (after_alert 240000000 [''CAM-01''] ''clean'' engine_pending) =
     [(''CAM-01'', 0, 240000000)]"
    by (simp add: after_alert_def after_alert_camera_def 2 eps st_pending_def)
  have ne: "''ignore'' \<noteq> ''clean''" by simp
  note I = response_clean_clears_ignore_suppresses[where now = 60000000 and decision = "''ignore''",
      OF 1 2, THEN conjunct2,
      THEN mp, OF ne]
  from I[THEN conjunct1]
  have 5: "state (after_alert 60000000 [''CAM-01''] ''ignore'' engine_pending) ''CAM-01'' =
     Some \<lparr> is_blurry = True, blur_start = Some 0, last_alert_until = Some 90000000,
            alert_open = True, pending_candidate = False \<rparr>"
    by (simp add: sup st_pending_def)
  have t: "(89999999 :: int) < 60000000 + engine_suppress engine_pending" by (simp add: sup)
  from I[THEN conjunct2, THEN conjunct2, THEN conjunct2, THEN conjunct2, THEN conjunct1,
      rule_format, OF t, of True]
    I[THEN conjunct2, THEN conjunct2, THEN conjunct2, THEN conjunct1]
  have 6: "aggregator (AlertEngine_process 89999999 ''CAM-01'' True
                 (after_alert 60000000 [''CAM-01''] ''ignore'' engine_pending)) =
     aggregator engine_pending"
    by simp
  from 1 2 3 4 5 6 show ?thesis by blast
qed

text \<open>
  Claim C8. For every input, \<open>parse_washdown_schedule\<close> returns and raises nothing. The
  windows it returns are those of the chunks (the parts between commas, stripped, the
  empty ones skipped) that \<open>parse_chunk\<close> accepts, in their order; for each other chunk it
  prints one warning and goes on.
\<close>

theorem parse_washdown_schedule_returns:
  "\<exists>windows printed.
     parse_washdown_schedule spec = Inr (windows, printed) \<and>
     windows =
       concat (map (\<lambda>chunk. case parse_chunk chunk of Inr w \<Rightarrow> [w] | Inl e \<Rightarrow> [])
                 (filter (\<lambda>chunk. chunk \<noteq> [])
                    (map strip (case spec of None \<Rightarrow> [] | Some s \<Rightarrow>
                                  if s = [] then [] else split CHR '','' s)))) \<and>
     printed =
       concat (map (\<lambda>chunk. case parse_chunk chunk of Inr w \<Rightarrow> [] | Inl e \<Rightarrow> [warning chunk])
                 (filter (\<lambda>chunk. chunk \<noteq> [])
                    (map strip (case spec of None \<Rightarrow> [] | Some s \<Rightarrow>
                                  if s = [] then [] else split CHR '','' s))))"
proof (cases spec)
  case None
  then show ?thesis by (simp add: parse_washdown_schedule_def)
next
  case (Some s)
  then show ?thesis
    by (cases "s = []") (simp_all add: parse_washdown_schedule_def parse_chunks_closed)
qed

theorem parse_washdown_schedule_returns_witness:
  "parse_washdown_schedule (Some ''06:00-06:30, invalid ,23:00-1:00'') =
     Inr ([((6, 0, 0, 0), (6, 30, 0, 0)), ((23, 0, 0, 0), (1, 0, 0, 0))], [warning ''invalid''])"
proof -
  from parse_washdown_schedule_returns[of "Some ''06:00-06:30, invalid ,23:00-1:00''"]
  obtain windows printed where
    r: "parse_washdown_schedule (Some ''06:00-06:30, invalid ,23:00-1:00'') = Inr (windows, printed)"
    and w: "windows =
       concat (map (\<lambda>chunk. case parse_chunk chunk of Inr w \<Rightarrow> [w] | Inl e \<Rightarrow> [])
                 (filter (\<lambda>chunk. chunk \<noteq> [])
                    (map strip (split CHR '','' ''06:00-06:30, invalid ,23:00-1:00''))))"
    and p: "printed =
       concat (map (\<lambda>chunk. case parse_chunk chunk of Inr w \<Rightarrow> [] | Inl e \<Rightarrow> [warning chunk])
                 (filter (\<lambda>chunk. chunk \<noteq> [])
                    (map strip (split CHR '','' ''06:00-06:30, invalid ,23:00-1:00''))))"
    by auto
  have chunks: "filter (\<lambda>chunk. chunk \<noteq> [])
         (map strip (split CHR '','' ''06:00-06:30, invalid ,23:00-1:00'')) =
       [''06:00-06:30'', ''invalid'', ''23:00-1:00'']"
    by (simp add: strip_def isspace_def)
  have c1: "parse_chunk ''06:00-06:30'' = Inr ((6, 0, 0, 0), (6, 30, 0, 0))"
    by (simp add: parse_chunk_def strptime_HM_def hour_alternatives_def match_colon_minute_def
        strip_def isspace_def isdigit_def digit_def)
  have c2: "parse_chunk ''invalid'' = Inl ValueError"
    by (simp add: parse_chunk_def)
  have c3: "parse_chunk ''23:00-1:00'' = Inr ((23, 0, 0, 0), (1, 0, 0, 0))"
    by (simp add: parse_chunk_def strptime_HM_def hour_alternatives_def match_colon_minute_def
        strip_def isspace_def isdigit_def digit_def)
  from r[unfolded w p chunks] show ?thesis by (simp add: c1 c2 c3)
qed

end
